theory Spec2Isabelle
  imports Main "HOL-Library.Sublist"
begin

section \<open>Strings\<close>

text \<open>
  A Go \<^verbatim>\<open>string\<close> is a sequence of bytes and \<^verbatim>\<open>len\<close> counts bytes, so a string
  is a \<^typ>\<open>char list\<close> here (an Isabelle \<^typ>\<open>char\<close> is one byte) and literals
  of the source outside ASCII are written as their UTF-8 bytes.

  Every word that reaches \<^verbatim>\<open>resolveDefinition\<close> has passed \<^verbatim>\<open>validWord\<close>, whose
  pattern \<^verbatim>\<open>^[\w\-']+$\<close> admits ASCII letters, digits, underscore, hyphen and
  apostrophe only.  On such strings \<^verbatim>\<open>strings.ToLower\<close> and
  \<^verbatim>\<open>strings.ToUpper\<close> map byte by byte, which is what \<open>toLower\<close> and
  \<open>toUpper\<close> below do.
\<close>

definition toLowerByte :: "char \<Rightarrow> char" where
  "toLowerByte c =
     (let n = (of_char c :: nat) in if 65 \<le> n \<and> n \<le> 90 then char_of (n + 32) else c)"

definition toUpperByte :: "char \<Rightarrow> char" where
  "toUpperByte c =
     (let n = (of_char c :: nat) in if 97 \<le> n \<and> n \<le> 122 then char_of (n - 32) else c)"

definition toLower :: "string \<Rightarrow> string" where
  "toLower s = map toLowerByte s"

definition toUpper :: "string \<Rightarrow> string" where
  "toUpper s = map toUpperByte s"

definition hasSuffix :: "string \<Rightarrow> string \<Rightarrow> bool" where
  "hasSuffix s suf = (length suf \<le> length s \<and> drop (length s - length suf) s = suf)"

definition trimSuffix :: "string \<Rightarrow> string \<Rightarrow> string" where
  "trimSuffix s suf = (if hasSuffix s suf then take (length s - length suf) s else s)"

text \<open>
  \<^verbatim>\<open>wordRe = `^[\w\-']+$`\<close>: in Go's regexp syntax \<^verbatim>\<open>\w\<close> is
  \<^verbatim>\<open>[0-9A-Za-z_]\<close>.
\<close>

definition wordByte :: "char \<Rightarrow> bool" where
  "wordByte c =
     (let n = (of_char c :: nat) in
        (48 \<le> n \<and> n \<le> 57) \<or> (65 \<le> n \<and> n \<le> 90) \<or> (97 \<le> n \<and> n \<le> 122)
        \<or> c = CHR ''_'' \<or> c = CHR ''-'' \<or> c = CHR 0x27)"

definition maxWordLen :: nat where
  "maxWordLen = 64"

definition validWord :: "string \<Rightarrow> bool" where
  "validWord w = (w \<noteq> [] \<and> length w \<le> maxWordLen \<and> list_all wordByte w)"

subsection \<open>strings.TrimSpace\<close>

text \<open>
  \<^verbatim>\<open>strings.TrimSpace\<close> removes leading and trailing runes for which
  \<^verbatim>\<open>unicode.IsSpace\<close> holds: tab, line feed, vertical tab, form feed, carriage
  return, space, U+0085, U+00A0, U+1680, U+2000 to U+200A, U+2028, U+2029,
  U+202F, U+205F and U+3000.  \<open>spaceRunes\<close> lists their UTF-8 encodings.  A
  byte sequence that does not decode to one of them (an invalid or cut-off
  encoding included) stops the trimming, both in Go and here.
\<close>

definition spaceRunes :: "string list" where
  "spaceRunes =
     [[CHR 0x09], [CHR 0x0A], [CHR 0x0B], [CHR 0x0C], [CHR 0x0D], [CHR 0x20],
      [CHR 0xC2, CHR 0x85], [CHR 0xC2, CHR 0xA0],
      [CHR 0xE1, CHR 0x9A, CHR 0x80],
      [CHR 0xE2, CHR 0x80, CHR 0x80], [CHR 0xE2, CHR 0x80, CHR 0x81],
      [CHR 0xE2, CHR 0x80, CHR 0x82], [CHR 0xE2, CHR 0x80, CHR 0x83],
      [CHR 0xE2, CHR 0x80, CHR 0x84], [CHR 0xE2, CHR 0x80, CHR 0x85],
      [CHR 0xE2, CHR 0x80, CHR 0x86], [CHR 0xE2, CHR 0x80, CHR 0x87],
      [CHR 0xE2, CHR 0x80, CHR 0x88], [CHR 0xE2, CHR 0x80, CHR 0x89],
      [CHR 0xE2, CHR 0x80, CHR 0x8A],
      [CHR 0xE2, CHR 0x80, CHR 0xA8], [CHR 0xE2, CHR 0x80, CHR 0xA9],
      [CHR 0xE2, CHR 0x80, CHR 0xAF],
      [CHR 0xE2, CHR 0x81, CHR 0x9F],
      [CHR 0xE3, CHR 0x80, CHR 0x80]]"

text \<open>The number of bytes of the space rune a string starts (ends) with, 0 if none.\<close>

definition leadingSpace :: "string \<Rightarrow> nat" where
  "leadingSpace s =
     (case find (\<lambda>e. take (length e) s = e) spaceRunes of
        None \<Rightarrow> 0 | Some e \<Rightarrow> length e)"

definition trailingSpace :: "string \<Rightarrow> nat" where
  "trailingSpace s =
     (case find (\<lambda>e. hasSuffix s e) spaceRunes of
        None \<Rightarrow> 0 | Some e \<Rightarrow> length e)"

function trimLeft :: "string \<Rightarrow> string" where
  "trimLeft s = (if leadingSpace s = 0 then s else trimLeft (drop (leadingSpace s) s))"
  by pat_completeness auto
termination
proof (relation "measure length")
  show "wf (measure length)" by simp
next
  fix s :: string
  assume "leadingSpace s \<noteq> 0"
  then obtain e where "find (\<lambda>e. take (length e) s = e) spaceRunes = Some e" "length e \<noteq> 0"
    by (auto simp: leadingSpace_def split: option.splits)
  then have "take (length e) s = e" "e \<noteq> []"
    by (auto simp: find_Some_iff)
  then have "s \<noteq> []" by auto
  with \<open>leadingSpace s \<noteq> 0\<close> show "(drop (leadingSpace s) s, s) \<in> measure length"
    by simp
qed

function trimRight :: "string \<Rightarrow> string" where
  "trimRight s =
     (if trailingSpace s = 0 then s else trimRight (take (length s - trailingSpace s) s))"
  by pat_completeness auto
termination
proof (relation "measure length")
  show "wf (measure length)" by simp
next
  fix s :: string
  assume "trailingSpace s \<noteq> 0"
  then obtain e where "find (\<lambda>e. hasSuffix s e) spaceRunes = Some e" "length e \<noteq> 0"
    by (auto simp: trailingSpace_def split: option.splits)
  then have "hasSuffix s e" "e \<noteq> []"
    by (auto simp: find_Some_iff)
  then have "s \<noteq> []" by (auto simp: hasSuffix_def)
  with \<open>trailingSpace s \<noteq> 0\<close> show "(take (length s - trailingSpace s) s, s) \<in> measure length"
    by simp
qed

declare trimLeft.simps [simp del] trimRight.simps [simp del]

definition trimSpace :: "string \<Rightarrow> string" where
  "trimSpace s = trimRight (trimLeft s)"

section \<open>Lemma candidates\<close>

text \<open>
  The deduplication loop of \<^verbatim>\<open>lemmaCandidates\<close>: \<open>seen\<close> is the
  \<^verbatim>\<open>map[string]bool\<close> (a missing key reads as false), \<open>out\<close> the slice appended to.
\<close>

fun dedupe :: "(string \<Rightarrow> bool) \<Rightarrow> string list \<Rightarrow> string list \<Rightarrow> string list" where
  "dedupe seen out [] = out"
| "dedupe seen out (c # cs) =
     (if \<not> seen c then dedupe (seen(c := True)) (out @ [c]) cs else dedupe seen out cs)"

definition lemmaCandidates :: "string \<Rightarrow> string list" where
  "lemmaCandidates w0 =
     (let w = toLower w0;
          cands = [w];
          cands = (if hasSuffix w ''ies'' \<and> length w > 4
                   then cands @ [take (length w - 3) w @ ''y''] else cands);
          cands = (if hasSuffix w ''es'' \<and> length w > 4
                   then cands @ [take (length w - 2) w] else cands);
          cands = (if hasSuffix w ''s'' \<and> length w > 3 \<and> \<not> hasSuffix w ''ss''
                   then cands @ [trimSuffix w ''s''] else cands)
      in dedupe (\<lambda>_. False) [] cands)"

definition cap1 :: "string \<Rightarrow> string" where
  "cap1 s = (if s = [] then s else toUpper (take 1 s) @ drop 1 s)"

text \<open>
  \<^verbatim>\<open>clampBody\<close>: the cap is \<^verbatim>\<open>bodyMaxChars = 1400\<close>, counted by \<^verbatim>\<open>len\<close> in
  bytes; the marker is \<^verbatim>\<open>"\n\n... (click to open full)"\<close> with the ellipsis
  U+2026 as the three bytes E2 80 A6.
\<close>

definition bodyMaxChars :: nat where
  "bodyMaxChars = 1400"

definition truncMarker :: string where
  "truncMarker = [CHR 0x0A, CHR 0x0A, CHR 0xE2, CHR 0x80, CHR 0xA6] @ '' (click to open full)''"

definition clampBody :: "string \<Rightarrow> string" where
  "clampBody s0 =
     (let s = trimSpace s0 in
        if length s \<le> bodyMaxChars then s
        else (let head = take (bodyMaxChars - 80) s in trimSpace head @ truncMarker))"

text \<open>
  \<^verbatim>\<open>sourceEmoji\<close>: cloud U+2601 U+FE0F, receipt U+1F9FE, file cabinet
  U+1F5C4 U+FE0F and question mark U+2753, as UTF-8 bytes.
\<close>

definition sourceEmoji :: "string \<Rightarrow> string" where
  "sourceEmoji s =
     (if s = ''online'' then [CHR 0xE2, CHR 0x98, CHR 0x81, CHR 0xEF, CHR 0xB8, CHR 0x8F]
      else if s = ''wiktionary'' then [CHR 0xF0, CHR 0x9F, CHR 0xA7, CHR 0xBE]
      else if s = ''offline''
        then [CHR 0xF0, CHR 0x9F, CHR 0x97, CHR 0x84, CHR 0xEF, CHR 0xB8, CHR 0x8F]
      else [CHR 0xE2, CHR 0x9D, CHR 0x93])"

text \<open>The literals \<^verbatim>\<open>" -> "\<close> (arrow U+2192) and the book U+1F4D8 followed by a space.\<close>

definition arrowSep :: string where
  "arrowSep = [CHR 0x20, CHR 0xE2, CHR 0x86, CHR 0x92, CHR 0x20]"

definition bookPrefix :: string where
  "bookPrefix = [CHR 0xF0, CHR 0x9F, CHR 0x93, CHR 0x98, CHR 0x20]"

section \<open>Time\<close>

text \<open>
  An instant is a number of nanoseconds, a \<^verbatim>\<open>time.Duration\<close> a signed 64-bit
  number of nanoseconds.  \<open>since now t\<close> is \<^verbatim>\<open>time.Since(t)\<close> when the clock reads
  \<open>now\<close>: the difference, saturated at the ends of the 64-bit range as
  \<^verbatim>\<open>Time.Sub\<close> does.
\<close>

type_synonym time = int
type_synonym duration = int

definition maxDuration :: duration where
  "maxDuration = 2 ^ 63 - 1"

definition minDuration :: duration where
  "minDuration = - (2 ^ 63)"

definition since :: "time \<Rightarrow> time \<Rightarrow> duration" where
  "since now t = max minDuration (min maxDuration (now - t))"

definition hour :: duration where
  "hour = 3600 * 1000000000"

definition cacheTTL :: duration where
  "cacheTTL = 30 * 24 * hour"

definition offlineRefreshAfter :: duration where
  "offlineRefreshAfter = 12 * hour"

definition memCacheMax :: int where
  "memCacheMax = 2500"

section \<open>The memory tier\<close>

record cacheItem =
  key :: string
  title :: string
  body :: string
  full :: string
  ts :: time
  src :: string

text \<open>
  \<^verbatim>\<open>lruCache\<close>: \<open>ll\<close> is the recency list, front first; each element holds
  one \<^verbatim>\<open>*cacheItem\<close>.  The index \<^verbatim>\<open>items\<close> maps a key to its element of the list;
  it is read off the list here (\<open>lruItems\<close>), every operation of the source
  updating list and index together and the keys of the list staying distinct
  (\<open>lruCache_get_distinct\<close>, \<open>lruCache_set_distinct\<close> below).  The field
  \<^verbatim>\<open>max\<close> is \<open>maxLen\<close> (the name \<open>max\<close> is taken), the mutex is left out: each
  operation runs as a whole.
\<close>

record lruCache =
  ll :: "cacheItem list"
  maxLen :: int
  ttl :: duration

definition newLRU :: "int \<Rightarrow> duration \<Rightarrow> lruCache" where
  "newLRU m d = \<lparr>ll = [], maxLen = m, ttl = d\<rparr>"

definition lruItems :: "lruCache \<Rightarrow> string \<Rightarrow> cacheItem option" where
  "lruItems c k = find (\<lambda>it. key it = k) (ll c)"

text \<open>
  \<^verbatim>\<open>get\<close>, with the clock reading \<open>now\<close> of its \<^verbatim>\<open>time.Since\<close>: an entry past
  the TTL is removed and reported absent, any other is moved to the front.
\<close>

definition lruCache_get :: "lruCache \<Rightarrow> string \<Rightarrow> time \<Rightarrow> lruCache \<times> cacheItem option" where
  "lruCache_get c k now =
     (case lruItems c k of
        Some it \<Rightarrow>
          if since now (ts it) > ttl c then (c\<lparr>ll := remove1 it (ll c)\<rparr>, None)
          else (c\<lparr>ll := it # remove1 it (ll c)\<rparr>, Some it)
      | None \<Rightarrow> (c, None))"

text \<open>The eviction loop of \<^verbatim>\<open>set\<close>: drop the back while the list is longer than \<open>max\<close>.\<close>

function evict :: "int \<Rightarrow> cacheItem list \<Rightarrow> cacheItem list" where
  "evict m l =
     (if int (length l) > m then (if l = [] then l else evict m (butlast l)) else l)"
  by pat_completeness auto
termination
  by (relation "measure (\<lambda>(m, l). length l)") auto

declare evict.simps [simp del]

definition lruCache_set ::
  "lruCache \<Rightarrow> string \<Rightarrow> string \<Rightarrow> string \<Rightarrow> string \<Rightarrow> string \<Rightarrow> time \<Rightarrow> lruCache" where
  "lruCache_set c k t b f s now =
     (case lruItems c k of
        Some it \<Rightarrow>
          c\<lparr>ll := it\<lparr>title := t, body := b, full := f, ts := now, src := s\<rparr> # remove1 it (ll c)\<rparr>
      | None \<Rightarrow>
          c\<lparr>ll := evict (maxLen c)
                 (\<lparr>key = k, title = t, body = b, full = f, ts = now, src = s\<rparr> # ll c)\<rparr>)"

section \<open>The persisted tier and the files\<close>

record diskEntry =
  Title :: string
  Body :: string
  Full :: string
  TS :: time
  Source :: string

text \<open>
  A value of the type \<^verbatim>\<open>map[string]diskEntry\<close>: the nil map, or a map with its
  entries.  Reading a key of the nil map finds nothing; assigning to a key of
  the nil map panics (\<open>None\<close>).
\<close>

type_synonym entries = "string \<rightharpoonup> diskEntry"

datatype diskMap = NilMap | MapOf entries

fun mapGet :: "diskMap \<Rightarrow> string \<Rightarrow> diskEntry option" where
  "mapGet NilMap k = None"
| "mapGet (MapOf m) k = m k"

fun mapSet :: "diskMap \<Rightarrow> string \<Rightarrow> diskEntry \<Rightarrow> diskMap option" where
  "mapSet NilMap k v = None"
| "mapSet (MapOf m) k v = Some (MapOf (m(k \<mapsto> v)))"

text \<open>
  What \<^verbatim>\<open>os.WriteFile\<close> can do to a file: write it whole, fail before touching
  it, or fail after truncating it and writing a part.
\<close>

datatype writeResult = WriteOk | OpenFailed | ShortWrite nat

text \<open>
  The content of \<^verbatim>\<open>cache.json\<close> and of \<^verbatim>\<open>cache.json.tmp\<close>: the JSON of a whole map
  (\<open>Snapshot\<close>; the JSON of the nil map is \<^verbatim>\<open>null\<close>), or a text that is not
  the JSON of a map, such as a cut-off one (\<open>Partial\<close>).
\<close>

datatype snapshotFile = Snapshot diskMap | Partial

text \<open>
  \<^verbatim>\<open>loadDiskCache\<close>, given the file (\<open>None\<close>: it cannot be read).  A file that
  cannot be read or decoded gives a new empty map; \<^verbatim>\<open>json.Unmarshal\<close> decodes
  \<^verbatim>\<open>null\<close> without an error and leaves the map variable nil, and that nil map
  is returned.
\<close>

definition loadDiskCache :: "snapshotFile option \<Rightarrow> diskMap" where
  "loadDiskCache f =
     (case f of
        None \<Rightarrow> MapOf Map.empty
      | Some Partial \<Rightarrow> MapOf Map.empty
      | Some (Snapshot m) \<Rightarrow> m)"

text \<open>
  The state the daemon shares between its handlers and its flush ticker:
  the memory tier, the persisted map with its dirty flag, and the three
  files (\<open>None\<close>: the file does not exist).
\<close>

record state =
  mem :: lruCache
  disk :: diskMap
  diskDirty :: bool
  lastFile :: "string option"
  cacheFile :: "snapshotFile option"
  tmpFile :: "snapshotFile option"

text \<open>\<^verbatim>\<open>writeLast\<close>; the error of the write is dropped.\<close>

definition writeLast :: "writeResult \<Rightarrow> string \<Rightarrow> string option \<Rightarrow> string option" where
  "writeLast r text old =
     (case r of WriteOk \<Rightarrow> Some text | OpenFailed \<Rightarrow> old | ShortWrite n \<Rightarrow> Some (take n text))"

text \<open>
  \<^verbatim>\<open>saveDiskCacheAtomic\<close>, given how its three fallible steps end: marshal,
  write the temporary file, rename it over the snapshot.  It returns nothing
  to its caller.
\<close>

record saveIO =
  marshalOk :: bool
  tmpWrite :: writeResult
  renameOk :: bool

definition saveDiskCacheAtomic :: "saveIO \<Rightarrow> state \<Rightarrow> state" where
  "saveDiskCacheAtomic io st =
     (if \<not> marshalOk io then st
      else (case tmpWrite io of
              OpenFailed \<Rightarrow> st
            | ShortWrite n \<Rightarrow> st\<lparr>tmpFile := Some Partial\<rparr>
            | WriteOk \<Rightarrow>
                if renameOk io
                then st\<lparr>cacheFile := Some (Snapshot (disk st)), tmpFile := None\<rparr>
                else st\<lparr>tmpFile := Some (Snapshot (disk st))\<rparr>))"

definition saved :: "saveIO \<Rightarrow> bool" where
  "saved io = (marshalOk io \<and> tmpWrite io = WriteOk \<and> renameOk io)"

text \<open>One tick of the flush ticker of \<^verbatim>\<open>runDaemon\<close> (the body of its loop).\<close>

definition flushTick :: "saveIO \<Rightarrow> state \<Rightarrow> state" where
  "flushTick io st =
     (if diskDirty st then (saveDiskCacheAtomic io st)\<lparr>diskDirty := False\<rparr> else st)"

section \<open>The resolver\<close>

record config =
  debug :: bool
  daemon :: bool
  forceOnline :: bool
  noOffline :: bool
  fullView :: bool

text \<open>
  The three lookups call the network or a local process.  Each is a
  parameter here: what it returns for a candidate, an error or a text.
  \<open>lastWrite\<close> is how the write of \<^verbatim>\<open>last.txt\<close> ends.
\<close>

datatype lookupError =
  TransportError | Non2xx | DecodeError | NoMeanings | NoEnDefs | EmptyText
  | DictNotInstalled | CommandFailed | NoDefs | NoUsableContent

record env =
  lookupPrimary :: "string \<Rightarrow> lookupError + string"
  lookupWiktionary :: "string \<Rightarrow> lookupError + string"
  offlineLookup :: "string \<Rightarrow> lookupError + string"
  lastWrite :: writeResult

text \<open>
  The clock readings of one call, in the order the source takes them:
  in \<^verbatim>\<open>mem.get\<close>, in the two tests of the persisted entry, in \<^verbatim>\<open>mem.set\<close> and
  for the time stamp of the new persisted entry.
\<close>

record clock =
  nowGet :: time
  nowOffline :: time
  nowTTL :: time
  nowSet :: time
  nowDisk :: time

datatype provider = Primary | Wiktionary | Offline

type_synonym trace = "(provider \<times> string) list"

text \<open>
  One \<^verbatim>\<open>for _, cand := range lemmaCandidates(word)\<close> loop over a provider:
  the variables \<^verbatim>\<open>(out, used, source)\<close> go in and come out, with the calls made.
\<close>

fun tryCands ::
  "provider \<Rightarrow> (string \<Rightarrow> lookupError + string) \<Rightarrow> string \<Rightarrow> string list \<Rightarrow>
   string \<times> string \<times> string \<Rightarrow> (string \<times> string \<times> string) \<times> trace" where
  "tryCands p f tag [] vars = (vars, [])"
| "tryCands p f tag (cand # cands) vars =
     (case f cand of
        Inr o' \<Rightarrow>
          if o' \<noteq> [] then ((o', cand, tag), [(p, cand)])
          else (let (r, tr) = tryCands p f tag cands vars in (r, (p, cand) # tr))
      | Inl err \<Rightarrow> (let (r, tr) = tryCands p f tag cands vars in (r, (p, cand) # tr)))"

text \<open>
  The provider chain of \<^verbatim>\<open>resolveDefinition\<close>, from the declaration of
  \<^verbatim>\<open>out\<close> to the placeholder.
\<close>

definition lookupChain :: "config \<Rightarrow> env \<Rightarrow> string \<Rightarrow> (string \<times> string \<times> string) \<times> trace" where
  "lookupChain cfg e word =
     (let v0 = ([], [], ''none'');
          (v1, t1) = tryCands Primary (lookupPrimary e) ''online'' (lemmaCandidates word) v0;
          (v2, t2) = (if fst v1 = []
                      then tryCands Wiktionary (lookupWiktionary e) ''wiktionary''
                             (lemmaCandidates word) v1
                      else (v1, []));
          (v3, t3) = (if fst v2 = [] \<and> \<not> noOffline cfg
                      then tryCands Offline (offlineLookup e) ''offline''
                             (lemmaCandidates word) v2
                      else (v2, []));
          v4 = (if fst v3 = [] then (''No definition found.'', word, ''none'') else v3)
      in (v4, t1 @ t2 @ t3))"

text \<open>
  How a call of \<^verbatim>\<open>resolveDefinition\<close> ends: it returns, or it panics at the
  assignment to the persisted map.  Either way \<open>result\<close> is the value of the
  named results \<^verbatim>\<open>(title, body, full, source)\<close> at that point, \<open>stateAfter\<close> the
  shared state and the files at that point, and \<open>lookups\<close> the lookups made, in
  order.
\<close>

datatype outcome =
    Returned (result: "string \<times> string \<times> string \<times> string") (stateAfter: state) (lookups: trace)
  | Panicked (result: "string \<times> string \<times> string \<times> string") (stateAfter: state) (lookups: trace)

text \<open>
  The rest of \<^verbatim>\<open>resolveDefinition\<close> once both tiers have missed: run the chain,
  shape the result, write \<^verbatim>\<open>last.txt\<close>, store the entry in the memory tier, then
  in the persisted map, and set the dirty flag.
\<close>

definition resolveMiss ::
  "config \<Rightarrow> env \<Rightarrow> clock \<Rightarrow> state \<Rightarrow> string \<Rightarrow> outcome" where
  "resolveMiss cfg e clk st word =
     (let k = toLower word;
          ((out, used, source), tr) = lookupChain cfg e word;
          showWord = (if used \<noteq> [] \<and> toLower word \<noteq> used
                      then cap1 word @ arrowSep @ cap1 used else cap1 word);
          fl = trimSpace out;
          lastF = writeLast (lastWrite e) fl (lastFile st);
          bd = ''<b><i>'' @ showWord @ ''</i></b>'' @ [CHR 0x0A] @ clampBody fl;
          ti = bookPrefix @ cap1 word @ '' '' @ sourceEmoji source;
          m = lruCache_set (mem st) k ti bd fl source (nowSet clk);
          de = \<lparr>Title = ti, Body = bd, Full = fl, TS = nowDisk clk, Source = source\<rparr>
      in case mapSet (disk st) k de of
           None \<Rightarrow> Panicked (ti, bd, fl, source) (st\<lparr>mem := m, lastFile := lastF\<rparr>) tr
         | Some d \<Rightarrow>
             Returned (ti, bd, fl, source)
               (st\<lparr>mem := m, disk := d, diskDirty := True, lastFile := lastF\<rparr>) tr)"

text \<open>\<^verbatim>\<open>resolveDefinition\<close>.\<close>

definition resolveDefinition ::
  "config \<Rightarrow> env \<Rightarrow> clock \<Rightarrow> state \<Rightarrow> string \<Rightarrow> outcome" where
  "resolveDefinition cfg e clk st word =
     (let k = toLower word;
          (m, hit) = lruCache_get (mem st) k (nowGet clk)
      in case hit of
           Some it \<Rightarrow> Returned (title it, body it, full it, src it) (st\<lparr>mem := m\<rparr>) []
         | None \<Rightarrow>
             (case mapGet (disk st) k of
                Some de \<Rightarrow>
                  if Source de = ''offline'' \<and> since (nowOffline clk) (TS de) > offlineRefreshAfter
                  then resolveMiss cfg e clk (st\<lparr>mem := m\<rparr>) word
                  else if since (nowTTL clk) (TS de) \<le> cacheTTL
                  then Returned (Title de, Body de, Full de, Source de)
                         (st\<lparr>mem := lruCache_set m k (Title de) (Body de) (Full de) (Source de)
                                     (nowSet clk)\<rparr>) []
                  else resolveMiss cfg e clk (st\<lparr>mem := m\<rparr>) word
              | None \<Rightarrow> resolveMiss cfg e clk (st\<lparr>mem := m\<rparr>) word))"

section \<open>Notions the properties are stated with\<close>

text \<open>
  Which branch \<^verbatim>\<open>resolveDefinition\<close> takes: the tests of its first two
  \<^verbatim>\<open>if\<close> statements, in their order.
\<close>

datatype path = MemHit | DiskHit | Miss

definition lookupPath :: "clock \<Rightarrow> state \<Rightarrow> string \<Rightarrow> path" where
  "lookupPath clk st word =
     (let k = toLower word in
        case snd (lruCache_get (mem st) k (nowGet clk)) of
          Some it \<Rightarrow> MemHit
        | None \<Rightarrow>
            (case mapGet (disk st) k of
               Some de \<Rightarrow>
                 if Source de = ''offline'' \<and> since (nowOffline clk) (TS de) > offlineRefreshAfter
                 then Miss
                 else if since (nowTTL clk) (TS de) \<le> cacheTTL then DiskHit else Miss
             | None \<Rightarrow> Miss))"

text \<open>
  The provider chain as a list of attempts, provider by provider and, within
  a provider, lemma by lemma.  The offline provider is part of it unless the
  option \<^verbatim>\<open>--no-offline\<close> is set.
\<close>

definition providers :: "config \<Rightarrow> provider list" where
  "providers cfg = [Primary, Wiktionary] @ (if noOffline cfg then [] else [Offline])"

definition attempts :: "config \<Rightarrow> string \<Rightarrow> (provider \<times> string) list" where
  "attempts cfg word = concat (map (\<lambda>p. map (Pair p) (lemmaCandidates word)) (providers cfg))"

fun call :: "env \<Rightarrow> provider \<Rightarrow> string \<Rightarrow> lookupError + string" where
  "call e Primary = lookupPrimary e"
| "call e Wiktionary = lookupWiktionary e"
| "call e Offline = offlineLookup e"

fun sourceKind :: "provider \<Rightarrow> string" where
  "sourceKind Primary = ''online''"
| "sourceKind Wiktionary = ''wiktionary''"
| "sourceKind Offline = ''offline''"

text \<open>An attempt yields when the lookup returns no error and a non-empty text.\<close>

definition yields :: "env \<Rightarrow> provider \<times> string \<Rightarrow> bool" where
  "yields e a = (case call e (fst a) (snd a) of Inr t \<Rightarrow> t \<noteq> [] | Inl err \<Rightarrow> False)"

definition textOf :: "env \<Rightarrow> provider \<times> string \<Rightarrow> string" where
  "textOf e a = (case call e (fst a) (snd a) of Inr t \<Rightarrow> t | Inl err \<Rightarrow> [])"

text \<open>The keys of the memory tier, most recently touched first.\<close>

definition lruKeys :: "lruCache \<Rightarrow> string list" where
  "lruKeys c = map key (ll c)"

text \<open>
  A run of \<^verbatim>\<open>set\<close> calls, each with its key, title, body, full text, source and
  clock reading.
\<close>

fun setAll ::
  "lruCache \<Rightarrow> (string \<times> string \<times> string \<times> string \<times> string \<times> time) list \<Rightarrow> lruCache" where
  "setAll c [] = c"
| "setAll c ((k, t, b, f, s, now) # es) = setAll (lruCache_set c k t b f s now) es"

text \<open>
  A run of \<^verbatim>\<open>resolveDefinition\<close> calls on the shared state, each with its own
  providers, clock readings and word; the run ends at a call that panics.
  \<open>allHits\<close> holds when none of the calls gets as far as the provider chain.
\<close>

fun resolveAll :: "config \<Rightarrow> state \<Rightarrow> (env \<times> clock \<times> string) list \<Rightarrow> state" where
  "resolveAll cfg st [] = st"
| "resolveAll cfg st ((e, clk, w) # rs) =
     (case resolveDefinition cfg e clk st w of
        Returned r st' tr \<Rightarrow> resolveAll cfg st' rs
      | Panicked r st' tr \<Rightarrow> st')"

fun allHits :: "config \<Rightarrow> state \<Rightarrow> (env \<times> clock \<times> string) list \<Rightarrow> bool" where
  "allHits cfg st [] = True"
| "allHits cfg st ((e, clk, w) # rs) =
     (lookupPath clk st w \<noteq> Miss
      \<and> allHits cfg (stateAfter (resolveDefinition cfg e clk st w)) rs)"


definition trimmed :: "string \<Rightarrow> bool" where
  "trimmed s = (\<forall>e \<in> set spaceRunes. \<not> prefix e s \<and> \<not> suffix e s)"




section \<open>Example inputs\<close>

text \<open>
  The daemon's configuration and its state at start when no cache file
  exists, a clock whose readings within one call all show the same instant,
  and some providers.
\<close>

definition daemonCfg :: config where
  "daemonCfg = \<lparr>debug = False, daemon = True, forceOnline = False, noOffline = False,
                 fullView = False\<rparr>"

definition daemonStart :: state where
  "daemonStart = \<lparr>mem = newLRU memCacheMax cacheTTL, disk = loadDiskCache None, diskDirty = False,
                   lastFile = None, cacheFile = None, tmpFile = None\<rparr>"

definition clockAt :: "time \<Rightarrow> clock" where
  "clockAt t = \<lparr>nowGet = t, nowOffline = t, nowTTL = t, nowSet = t, nowDisk = t\<rparr>"

text \<open>Every lookup fails.\<close>

definition envNone :: env where
  "envNone = \<lparr>lookupPrimary = (\<lambda>c. Inl Non2xx), lookupWiktionary = (\<lambda>c. Inl Non2xx),
               offlineLookup = (\<lambda>c. Inl NoDefs), lastWrite = WriteOk\<rparr>"

text \<open>The primary service knows \<^verbatim>\<open>legend\<close> and nothing else.\<close>

definition envLegend :: env where
  "envLegend = envNone\<lparr>lookupPrimary :=
     (\<lambda>c. if c = ''legend'' then Inr ''A story handed down from the past.'' else Inl Non2xx)\<rparr>"

text \<open>Only the offline dictionary knows \<^verbatim>\<open>cat\<close>; only the primary service knows it.\<close>

definition envOfflineCat :: env where
  "envOfflineCat = envNone\<lparr>offlineLookup :=
     (\<lambda>c. if c = ''cat'' then Inr ''1. A small domesticated animal.'' else Inl NoDefs)\<rparr>"

definition envOnlineCat :: env where
  "envOnlineCat = envNone\<lparr>lookupPrimary :=
     (\<lambda>c. if c = ''cat'' then Inr ''A small domesticated carnivorous mammal.'' else Inl Non2xx)\<rparr>"

text \<open>A flush whose temporary file cannot be opened, and one that succeeds.\<close>

definition ioOpenFails :: saveIO where
  "ioOpenFails = \<lparr>marshalOk = True, tmpWrite = OpenFailed, renameOk = True\<rparr>"

definition ioOk :: saveIO where
  "ioOk = \<lparr>marshalOk = True, tmpWrite = WriteOk, renameOk = True\<rparr>"



text \<open>
  The daemon's state at start after it has loaded a cache file holding one
  entry for \<^verbatim>\<open>cat\<close>, and two such entries, both stamped with instant 0.
\<close>

definition daemonStartWith :: "diskEntry \<Rightarrow> state" where
  "daemonStartWith de =
     daemonStart\<lparr>disk := loadDiskCache (Some (Snapshot (MapOf [''cat'' \<mapsto> de]))),
                   cacheFile := Some (Snapshot (MapOf [''cat'' \<mapsto> de]))\<rparr>"

definition offlineCatEntry :: diskEntry where
  "offlineCatEntry = \<lparr>Title = ''Cat'', Body = ''1. A small domesticated animal.'',
                       Full = ''1. A small domesticated animal.'', TS = 0, Source = ''offline''\<rparr>"

definition onlineCatEntry :: diskEntry where
  "onlineCatEntry = offlineCatEntry\<lparr>Source := ''online''\<rparr>"


text \<open>The daemon's state at start after it has loaded a cache file holding \<^verbatim>\<open>null\<close>.\<close>

definition daemonStartNull :: state where
  "daemonStartNull =
     daemonStart\<lparr>disk := loadDiskCache (Some (Snapshot NilMap)),
                   cacheFile := Some (Snapshot NilMap)\<rparr>"



section \<open>Properties of the lemma candidates\<close>

lemma dedupe_prefix: "\<exists>zs. dedupe seen out cs = out @ zs"
proof (induction cs arbitrary: seen out)
  case Nil
  then show ?case by simp
next
  case (Cons c cs)
  show ?case
  proof (cases "seen c")
    case True
    with Cons.IH [of seen out] show ?thesis by simp
  next
    case False
    from Cons.IH [of "seen(c := True)" "out @ [c]"]
    obtain zs where "dedupe (seen(c := True)) (out @ [c]) cs = (out @ [c]) @ zs" by blast
    with False show ?thesis by simp
  qed
qed

lemma dedupe_distinct:
  "distinct out \<Longrightarrow> (\<forall>x. seen x = (x \<in> set out)) \<Longrightarrow> distinct (dedupe seen out cs)"
proof (induction cs arbitrary: seen out)
  case Nil
  then show ?case by simp
next
  case (Cons c cs)
  show ?case
  proof (cases "seen c")
    case True
    with Cons show ?thesis by simp
  next
    case False
    have "distinct (dedupe (seen(c := True)) (out @ [c]) cs)"
    proof (rule Cons.IH)
      from False Cons.prems show "distinct (out @ [c])" by simp
      from Cons.prems show "\<forall>x. (seen(c := True)) x = (x \<in> set (out @ [c]))" by auto
    qed
    with False show ?thesis by simp
  qed
qed

lemma lemmaCandidates_distinct: "distinct (lemmaCandidates w)"
  unfolding lemmaCandidates_def Let_def by (rule dedupe_distinct) simp_all

lemma dedupe_head: "\<exists>zs. dedupe (\<lambda>_. False) [] (x # xs) = x # zs"
  using dedupe_prefix [of "(\<lambda>_. False)(x := True)" "[x]" xs] by simp

lemma lemmaCandidates_first: "\<exists>rest. lemmaCandidates w = toLower w # rest"
  unfolding lemmaCandidates_def Let_def
  by (simp del: dedupe.simps add: dedupe_head)

lemmas lemma_eval = lemmaCandidates_def toLower_def toLowerByte_def hasSuffix_def trimSuffix_def

lemma hasSuffix_suffix: "hasSuffix s suf = suffix suf s"
proof
  assume "hasSuffix s suf"
  then have "s = take (length s - length suf) s @ suf"
    by (simp add: hasSuffix_def) (metis append_take_drop_id)
  then show "suffix suf s" by (metis suffixI)
next
  assume "suffix suf s"
  then obtain zs where "s = zs @ suf" by (auto simp: suffix_def)
  then show "hasSuffix s suf" by (simp add: hasSuffix_def)
qed

lemma dedupe_fresh:
  "distinct cs \<Longrightarrow> (\<forall>c \<in> set cs. \<not> seen c) \<Longrightarrow> dedupe seen out cs = out @ cs"
proof (induction cs arbitrary: seen out)
  case Nil
  then show ?case by simp
next
  case (Cons a cs)
  from Cons.prems have "distinct cs" "\<forall>c \<in> set cs. \<not> (seen(a := True)) c" "\<not> seen a"
    by auto
  then have "dedupe (seen(a := True)) (out @ [a]) cs = (out @ [a]) @ cs"
    by (intro Cons.IH)
  then show ?case using \<open>\<not> seen a\<close> by simp
qed

lemma lemmaCandidates_rules:
  "lemmaCandidates w =
     (let lw = toLower w in
        [lw]
        @ (if suffix ''ies'' lw \<and> 4 < length lw then [take (length lw - 3) lw @ ''y''] else [])
        @ (if suffix ''es'' lw \<and> 4 < length lw then [take (length lw - 2) lw] else [])
        @ (if suffix ''s'' lw \<and> 3 < length lw \<and> \<not> suffix ''ss'' lw
           then [take (length lw - 1) lw] else []))"
proof -
  define lw where "lw = toLower w"
  define c1 where "c1 = (if suffix ''ies'' lw \<and> 4 < length lw then [take (length lw - 3) lw @ ''y''] else [])"
  define c2 where "c2 = (if suffix ''es'' lw \<and> 4 < length lw then [take (length lw - 2) lw] else [])"
  define c3 where "c3 = (if suffix ''s'' lw \<and> 3 < length lw \<and> \<not> suffix ''ss'' lw
           then [take (length lw - 1) lw] else [])"
  have t: "suffix ''s'' lw \<Longrightarrow> trimSuffix lw ''s'' = take (length lw - 1) lw"
    by (simp add: trimSuffix_def hasSuffix_suffix)
  have unf: "lemmaCandidates w = dedupe (\<lambda>_. False) [] ([lw] @ c1 @ c2 @ c3)"
    unfolding lemmaCandidates_def Let_def hasSuffix_suffix lw_def [symmetric]
    by (rule arg_cong [where f = "dedupe (\<lambda>_. False) []"]) (simp add: c1_def c2_def c3_def t)
  have l1: "\<forall>x \<in> set c1. length x = length lw - 2 \<and> 4 < length lw"
    by (auto simp: c1_def)
  have l2: "\<forall>x \<in> set c2. length x = length lw - 2 \<and> 4 < length lw"
    by (auto simp: c2_def)
  have l3: "\<forall>x \<in> set c3. length x = length lw - 1 \<and> 3 < length lw"
    by (auto simp: c3_def)
  have d12: "c1 \<noteq> [] \<Longrightarrow> c2 \<noteq> [] \<Longrightarrow> hd c1 \<noteq> hd c2"
  proof -
    assume "c1 \<noteq> []" "c2 \<noteq> []"
    then have s: "suffix ''ies'' lw" and n: "4 < length lw"
      by (auto simp: c1_def split: if_splits)
    then obtain zs where z: "lw = zs @ ''ies''" by (auto simp: suffix_def)
    then show "hd c1 \<noteq> hd c2" using s n by (simp add: c1_def c2_def suffix_def)
  qed
  have e1: "c1 = [] \<or> (\<exists>x. c1 = [x])" by (simp add: c1_def)
  have e2: "c2 = [] \<or> (\<exists>x. c2 = [x])" by (simp add: c2_def)
  have e3: "c3 = [] \<or> (\<exists>x. c3 = [x])" by (simp add: c3_def)
  have n1: "lw \<notin> set c1"
  proof
    assume "lw \<in> set c1"
    with l1 have "length lw = length lw - 2 \<and> 4 < length lw" by blast
    then show False by arith
  qed
  have n2: "lw \<notin> set c2"
  proof
    assume "lw \<in> set c2"
    with l2 have "length lw = length lw - 2 \<and> 4 < length lw" by blast
    then show False by arith
  qed
  have n3: "lw \<notin> set c3"
  proof
    assume "lw \<in> set c3"
    with l3 have "length lw = length lw - 1 \<and> 3 < length lw" by blast
    then show False by arith
  qed
  have n13: "x \<in> set c1 \<Longrightarrow> x \<notin> set c3" for x
  proof
    assume "x \<in> set c1" "x \<in> set c3"
    with l1 l3 have "length lw - 2 = length lw - 1 \<and> 3 < length lw" by metis
    then show False by arith
  qed
  have n23: "x \<in> set c2 \<Longrightarrow> x \<notin> set c3" for x
  proof
    assume "x \<in> set c2" "x \<in> set c3"
    with l2 l3 have "length lw - 2 = length lw - 1 \<and> 3 < length lw" by metis
    then show False by arith
  qed
  have n12: "x \<in> set c1 \<Longrightarrow> x \<notin> set c2" for x
    using e1 e2 d12 by (elim disjE exE) simp_all
  have "distinct c1" "distinct c2" "distinct c3"
    using e1 e2 e3 by (elim disjE exE; simp)+
  then have "distinct ([lw] @ c1 @ c2 @ c3)"
    using n1 n2 n3 n12 n13 n23 by (simp add: disjoint_iff)
  then have "dedupe (\<lambda>_. False) [] ([lw] @ c1 @ c2 @ c3) = [] @ [lw] @ c1 @ c2 @ c3"
    by (intro dedupe_fresh) simp_all
  with unf show ?thesis
    by (simp add: Let_def lw_def c1_def c2_def c3_def)
qed

text \<open>
  Claim C3, as the code has it.  \<open>lemmaCandidates\<close> is a function of its
  argument alone and its result has no duplicates.  The result is the
  lowercased word, then the candidate of each suffix rule that applies, in
  the order of the rules: for a word of more than 4 bytes ending in \<^verbatim>\<open>ies\<close>,
  the word with \<^verbatim>\<open>y\<close> in place of \<^verbatim>\<open>ies\<close>; for a word of more than 4 bytes
  ending in \<^verbatim>\<open>es\<close>, the word without its last two bytes; for a word of more
  than 3 bytes ending in \<^verbatim>\<open>s\<close> and not in \<^verbatim>\<open>ss\<close>, the word without its last
  byte.  So \<^verbatim>\<open>"cats"\<close> gives \<^verbatim>\<open>["cats", "cat"]\<close>, \<^verbatim>\<open>"class"\<close> gives \<^verbatim>\<open>["class"]\<close>
  and \<^verbatim>\<open>"puppies"\<close>, to which all three rules apply, gives
  \<^verbatim>\<open>["puppies", "puppy", "puppi", "puppie"]\<close>.
\<close>

theorem lemmaCandidates_ordered_distinct:
  "distinct (lemmaCandidates w)
   \<and> lemmaCandidates w =
       (let lw = toLower w in
          [lw]
          @ (if suffix ''ies'' lw \<and> 4 < length lw then [take (length lw - 3) lw @ ''y''] else [])
          @ (if suffix ''es'' lw \<and> 4 < length lw then [take (length lw - 2) lw] else [])
          @ (if suffix ''s'' lw \<and> 3 < length lw \<and> \<not> suffix ''ss'' lw
             then [take (length lw - 1) lw] else []))
   \<and> lemmaCandidates ''cats'' = [''cats'', ''cat'']
   \<and> lemmaCandidates ''puppies'' = [''puppies'', ''puppy'', ''puppi'', ''puppie'']
   \<and> lemmaCandidates ''class'' = [''class'']"
proof -
  have "lemmaCandidates ''cats'' = [''cats'', ''cat'']"
    by (simp add: lemma_eval)
  moreover have "lemmaCandidates ''puppies'' = [''puppies'', ''puppy'', ''puppi'', ''puppie'']"
    by (simp add: lemma_eval)
  moreover have "lemmaCandidates ''class'' = [''class'']"
    by (simp add: lemma_eval)
  ultimately show ?thesis
    using lemmaCandidates_distinct [of w] lemmaCandidates_rules [of w] by blast
qed

text \<open>The rules on \<^verbatim>\<open>"Buses"\<close>: the second and the third apply.\<close>

theorem lemmaCandidates_ordered_distinct_witness:
  "lemmaCandidates ''Buses'' = [''buses'', ''bus'', ''buse'']"
proof -
  have lw: "toLower ''Buses'' = ''buses''" by code_simp
  have "lemmaCandidates ''Buses'' =
       (let lw = toLower ''Buses'' in
          [lw]
          @ (if suffix ''ies'' lw \<and> 4 < length lw then [take (length lw - 3) lw @ ''y''] else [])
          @ (if suffix ''es'' lw \<and> 4 < length lw then [take (length lw - 2) lw] else [])
          @ (if suffix ''s'' lw \<and> 3 < length lw \<and> \<not> suffix ''ss'' lw
             then [take (length lw - 1) lw] else []))"
    using lemmaCandidates_ordered_distinct [of "''Buses''"] by blast
  then show ?thesis unfolding lw Let_def by (simp add: suffix_def)
qed

text \<open>
  Claim C3 as it is written gives \<^verbatim>\<open>["puppies", "puppy"]\<close> for \<^verbatim>\<open>"puppies"\<close>; the
  code returns two more candidates.
\<close>

theorem lemmaCandidates_puppies_counterexample:
  "lemmaCandidates ''puppies'' \<noteq> [''puppies'', ''puppy'']"
  by (simp add: lemma_eval)

subsection \<open>Trimming and clamping\<close>

lemma spaceRunes_nonempty: "e \<in> set spaceRunes \<Longrightarrow> e \<noteq> []"
  by (auto simp: spaceRunes_def)

lemma trimLeft_fix: "leadingSpace s = 0 \<Longrightarrow> trimLeft s = s"
  by (subst trimLeft.simps) simp

lemma trimRight_fix: "trailingSpace s = 0 \<Longrightarrow> trimRight s = s"
  by (subst trimRight.simps) simp












subsection \<open>Runs of white space and trimmed texts\<close>








lemma prefix_take: "prefix e s = (take (length e) s = e)"
  by (metis append_eq_conv_conj prefix_def append_take_drop_id)

lemma leadingSpace_0_iff: "(leadingSpace s = 0) = (\<forall>e \<in> set spaceRunes. \<not> prefix e s)"
proof
  assume z: "leadingSpace s = 0"
  show "\<forall>e \<in> set spaceRunes. \<not> prefix e s"
  proof
    fix e assume e: "e \<in> set spaceRunes"
    show "\<not> prefix e s"
    proof
      assume "prefix e s"
      then have "take (length e) s = e" by (simp add: prefix_take)
      with e obtain e' where f: "find (\<lambda>e. take (length e) s = e) spaceRunes = Some e'"
        by (cases "find (\<lambda>e. take (length e) s = e) spaceRunes") (auto simp: find_None_iff)
      then have "e' \<in> set spaceRunes" by (auto simp: find_Some_iff)
      then have "e' \<noteq> []" by (rule spaceRunes_nonempty)
      with f z show False by (simp add: leadingSpace_def)
    qed
  qed
next
  assume "\<forall>e \<in> set spaceRunes. \<not> prefix e s"
  then have "find (\<lambda>e. take (length e) s = e) spaceRunes = None"
    by (simp add: find_None_iff prefix_take)
  then show "leadingSpace s = 0" by (simp add: leadingSpace_def)
qed

lemma trailingSpace_0_iff: "(trailingSpace s = 0) = (\<forall>e \<in> set spaceRunes. \<not> suffix e s)"
proof
  assume z: "trailingSpace s = 0"
  show "\<forall>e \<in> set spaceRunes. \<not> suffix e s"
  proof
    fix e assume e: "e \<in> set spaceRunes"
    show "\<not> suffix e s"
    proof
      assume "suffix e s"
      then have "hasSuffix s e" by (simp add: hasSuffix_suffix)
      with e obtain e' where f: "find (\<lambda>e. hasSuffix s e) spaceRunes = Some e'"
        by (cases "find (\<lambda>e. hasSuffix s e) spaceRunes") (auto simp: find_None_iff)
      then have "e' \<in> set spaceRunes" by (auto simp: find_Some_iff)
      then have "e' \<noteq> []" by (rule spaceRunes_nonempty)
      with f z show False by (simp add: trailingSpace_def)
    qed
  qed
next
  assume "\<forall>e \<in> set spaceRunes. \<not> suffix e s"
  then have "find (\<lambda>e. hasSuffix s e) spaceRunes = None"
    by (simp add: find_None_iff hasSuffix_suffix)
  then show "trailingSpace s = 0" by (simp add: trailingSpace_def)
qed

lemma trimmed_iff: "trimmed s = (leadingSpace s = 0 \<and> trailingSpace s = 0)"
  unfolding trimmed_def leadingSpace_0_iff trailingSpace_0_iff by blast


lemma trimmed_fix: "trimmed s \<Longrightarrow> trimSpace s = s"
  by (simp add: trimmed_iff trimSpace_def trimLeft_fix trimRight_fix)


section \<open>Properties of the memory tier\<close>

lemma evict_take: "evict m l = take (nat m) l"
proof (induction m l rule: evict.induct)
  case (1 m l)
  show ?case
  proof (cases "int (length l) > m")
    case False
    then show ?thesis by (subst evict.simps) simp
  next
    case True
    show ?thesis
    proof (cases "l = []")
      case True
      then show ?thesis by (subst evict.simps) simp
    next
      case False
      with True 1 have "evict m l = take (nat m) (butlast l)"
        by (subst evict.simps) simp
      also have "\<dots> = take (nat m) (take (length l - 1) l)"
        by (simp add: butlast_conv_take)
      also from True have "\<dots> = take (nat m) l"
        by (simp add: min_absorb1)
      finally show ?thesis .
    qed
  qed
qed

lemma lruItems_Some_key: "lruItems c k = Some it \<Longrightarrow> key it = k"
  by (auto simp: lruItems_def find_Some_iff)

lemma lruItems_head: "ll c = it # rest \<Longrightarrow> key it = k \<Longrightarrow> lruItems c k = Some it"
  by (simp add: lruItems_def)

lemma lruCache_get_fields:
  "maxLen (fst (lruCache_get c k now)) = maxLen c \<and> ttl (fst (lruCache_get c k now)) = ttl c"
  by (simp add: lruCache_get_def split: option.splits)

lemma lruCache_set_fields:
  "maxLen (lruCache_set c k t b f s now) = maxLen c \<and> ttl (lruCache_set c k t b f s now) = ttl c"
  by (simp add: lruCache_set_def split: option.splits)

lemma lruCache_get_hit:
  "lruCache_get c k now = (c', Some it) \<Longrightarrow>
     key it = k \<and> lruItems c k = Some it \<and> since now (ts it) \<le> ttl c
     \<and> c' = c\<lparr>ll := it # remove1 it (ll c)\<rparr>"
  by (auto simp: lruCache_get_def lruItems_Some_key split: option.splits if_splits)

lemma lruCache_get_head:
  "lruItems c k = Some it \<Longrightarrow> since now (ts it) \<le> ttl c \<Longrightarrow>
     lruCache_get c k now = (c\<lparr>ll := it # remove1 it (ll c)\<rparr>, Some it)"
  by (simp add: lruCache_get_def)

lemma lruCache_set_head:
  assumes "1 \<le> maxLen c"
  shows "\<exists>rest. ll (lruCache_set c k t b f s now) =
           \<lparr>key = k, title = t, body = b, full = f, ts = now, src = s\<rparr> # rest"
proof (cases "lruItems c k")
  case None
  with assms show ?thesis
    by (cases "nat (maxLen c)") (auto simp: lruCache_set_def evict_take)
next
  case (Some it)
  then have "key it = k" by (rule lruItems_Some_key)
  then have "it\<lparr>title := t, body := b, full := f, ts := now, src := s\<rparr> =
             \<lparr>key = k, title = t, body = b, full = f, ts = now, src = s\<rparr>"
    by (cases it) simp
  with Some show ?thesis by (simp add: lruCache_set_def)
qed

lemma lruCache_set_small:
  assumes "maxLen c \<le> 0" "ll c = []"
  shows "ll (lruCache_set c k t b f s now) = []"
  using assms by (simp add: lruCache_set_def lruItems_def evict_take)

subsection \<open>Recency order and eviction\<close>

lemma lruItems_None_iff: "lruItems c k = None \<longleftrightarrow> k \<notin> set (lruKeys c)"
  by (auto simp: lruItems_def lruKeys_def find_None_iff)

lemma lruKeys_set_new:
  "k \<notin> set (lruKeys c) \<Longrightarrow>
     lruKeys (lruCache_set c k t b f s now) = take (nat (maxLen c)) (k # lruKeys c)"
proof -
  assume "k \<notin> set (lruKeys c)"
  then have "lruItems c k = None" by (simp add: lruItems_None_iff)
  then show ?thesis
    by (simp add: lruCache_set_def evict_take lruKeys_def take_map [symmetric])
qed

lemma take_append_take: "take n (xs @ take n ys) = take n (xs @ ys)"
  by (simp add: min_def)

lemma lruKeys_setAll:
  "distinct (map fst es) \<Longrightarrow> set (map fst es) \<inter> set (lruKeys c) = {} \<Longrightarrow>
   length (ll c) \<le> nat (maxLen c) \<Longrightarrow>
     lruKeys (setAll c es) = take (nat (maxLen c)) (rev (map fst es) @ lruKeys c)"
proof (induction es arbitrary: c)
  case Nil
  then show ?case by (simp add: lruKeys_def)
next
  case (Cons e es)
  obtain k t b f s now where e: "e = (k, t, b, f, s, now)" by (cases e) auto
  let ?c = "lruCache_set c k t b f s now"
  from Cons.prems e have new: "k \<notin> set (lruKeys c)" by auto
  then have keys: "lruKeys ?c = take (nat (maxLen c)) (k # lruKeys c)"
    by (rule lruKeys_set_new)
  have m: "maxLen ?c = maxLen c" by (simp add: lruCache_set_fields)
  have "lruKeys (setAll ?c es) = take (nat (maxLen ?c)) (rev (map fst es) @ lruKeys ?c)"
  proof (rule Cons.IH)
    from Cons.prems show "distinct (map fst es)" by simp
    have "set (lruKeys ?c) \<subseteq> insert k (set (lruKeys c))"
      unfolding keys using set_take_subset [of "nat (maxLen c)" "k # lruKeys c"] by simp
    with Cons.prems e show "set (map fst es) \<inter> set (lruKeys ?c) = {}" by auto
    have "length (lruKeys ?c) \<le> nat (maxLen ?c)" unfolding keys m by simp
    then show "length (ll ?c) \<le> nat (maxLen ?c)" by (simp add: lruKeys_def)
  qed
  then show ?case
    by (simp add: e m keys take_append_take)
qed

lemma lruKeys_setAll_new:
  assumes "distinct (map fst es)"
  shows "lruKeys (setAll (newLRU N d) es) = take (nat N) (rev (map fst es))"
  using lruKeys_setAll [of es "newLRU N d"] assms by (simp add: newLRU_def lruKeys_def)

lemma map_remove1_key:
  "distinct (map f l) \<Longrightarrow> x \<in> set l \<Longrightarrow> map f (remove1 x l) = remove1 (f x) (map f l)"
  by (induction l) (auto simp: image_iff)

lemma lruKeys_get_hit:
  assumes "lruCache_get c k now = (c', Some it)" "distinct (lruKeys c)"
  shows "lruKeys c' = k # remove1 k (lruKeys c)"
proof -
  from assms(1) have h: "key it = k" "lruItems c k = Some it" "c' = c\<lparr>ll := it # remove1 it (ll c)\<rparr>"
    by (auto dest: lruCache_get_hit)
  then have "it \<in> set (ll c)" by (auto simp: lruItems_def find_Some_iff)
  with assms(2) h show ?thesis by (simp add: lruKeys_def map_remove1_key)
qed

subsection \<open>The list as index\<close>

text \<open>
  The keys of the list stay distinct, so that reading the index
  \<^verbatim>\<open>items\<close> off the list loses nothing: an empty cache has no keys, and
  \<^verbatim>\<open>get\<close> and \<^verbatim>\<open>set\<close> keep the keys distinct.
\<close>

lemma lruItems_mem: "lruItems c k = Some it \<Longrightarrow> it \<in> set (ll c) \<and> key it = k"
  by (auto simp: lruItems_def find_Some_iff)

lemma newLRU_distinct: "distinct (lruKeys (newLRU m d))"
  by (simp add: newLRU_def lruKeys_def)

lemma lruCache_get_distinct:
  assumes "distinct (lruKeys c)"
  shows "distinct (lruKeys (fst (lruCache_get c k now)))"
proof (cases "lruItems c k")
  case None
  with assms show ?thesis by (simp add: lruCache_get_def)
next
  case (Some it)
  then have "it \<in> set (ll c)" "key it = k" by (simp_all add: lruItems_mem)
  with assms have "map key (remove1 it (ll c)) = remove1 k (lruKeys c)"
    by (simp add: lruKeys_def map_remove1_key)
  with assms Some \<open>key it = k\<close> show ?thesis
    by (simp add: lruCache_get_def lruKeys_def)
qed

lemma lruKeys_set_existing:
  assumes "distinct (lruKeys c)" "k \<in> set (lruKeys c)"
  shows "lruKeys (lruCache_set c k t b f s now) = k # remove1 k (lruKeys c)"
proof -
  from assms(2) obtain it where it: "lruItems c k = Some it"
    using lruItems_None_iff [of c k] by auto
  then have "it \<in> set (ll c)" "key it = k" by (simp_all add: lruItems_mem)
  with assms(1) have "map key (remove1 it (ll c)) = remove1 k (lruKeys c)"
    by (simp add: lruKeys_def map_remove1_key)
  with it \<open>key it = k\<close> show ?thesis
    by (simp add: lruCache_set_def lruKeys_def)
qed

lemma lruCache_set_distinct:
  assumes "distinct (lruKeys c)"
  shows "distinct (lruKeys (lruCache_set c k t b f s now))"
proof (cases "k \<in> set (lruKeys c)")
  case True
  with assms show ?thesis by (simp add: lruKeys_set_existing)
next
  case False
  with assms show ?thesis by (simp add: lruKeys_set_new)
qed

subsection \<open>Eviction of the least recently touched key\<close>

text \<open>
  Claim C8.  Into an empty cache of capacity \<open>N \<ge> 0\<close>, \<open>N + 1\<close> entries with
  distinct keys are \<^verbatim>\<open>set\<close>: the cache then holds all keys but the first one
  set, most recent first, so exactly the least recently touched key is
  evicted.  A \<^verbatim>\<open>get\<close> that finds a key, made after the first \<open>N\<close> entries are
  set, moves the key to the front, and the \<^verbatim>\<open>set\<close> of the last entry then keeps
  that key and evicts the key now at the back.  This second part is for
  \<open>N \<ge> 2\<close>, where the key touched and the key at the back can differ; the
  callers use capacities 2500 and 64.
\<close>

theorem lru_evicts_least_recent:
  assumes "0 \<le> N" and "length es = nat N"
    and "distinct (map fst (es @ [(k, t, b, f, s, now)]))"
  shows "lruKeys (setAll (newLRU N d) (es @ [(k, t, b, f, s, now)]))
           = rev (map fst (tl (es @ [(k, t, b, f, s, now)])))
         \<and> set (lruKeys (setAll (newLRU N d) (es @ [(k, t, b, f, s, now)])))
           = set (map fst (es @ [(k, t, b, f, s, now)])) - {fst (hd (es @ [(k, t, b, f, s, now)]))}
         \<and> (2 \<le> N \<longrightarrow>
              (\<forall>k' now' c' it. lruCache_get (setAll (newLRU N d) es) k' now' = (c', Some it) \<longrightarrow>
                 lruKeys c' = k' # remove1 k' (rev (map fst es))
                 \<and> lruKeys (lruCache_set c' k t b f s now)
                     = k # k' # butlast (remove1 k' (rev (map fst es)))))"
proof (intro conjI impI allI)
  let ?all = "es @ [(k, t, b, f, s, now)]"
  define ks where "ks = map fst ?all"
  have len: "length ks = nat N + 1" using assms by (simp add: ks_def)
  have "lruKeys (setAll (newLRU N d) ?all) = take (nat N) (rev ks)"
    unfolding ks_def using assms(3) by (rule lruKeys_setAll_new)
  also have "\<dots> = rev (drop 1 ks)"
    using len by (simp add: take_rev)
  also have "\<dots> = rev (tl ks)"
    by (simp add: drop_Suc)
  also have "\<dots> = rev (map fst (tl ?all))"
    unfolding ks_def by (simp only: map_tl)
  finally show keys: "lruKeys (setAll (newLRU N d) ?all) = rev (map fst (tl ?all))" .
  have ne: "?all \<noteq> []" by simp
  then obtain x xs where x: "?all = x # xs" by (cases ?all) auto
  with assms(3) have "fst x \<notin> fst ` set xs" by (metis distinct.simps(2) list.simps(9) set_map)
  with x show "set (lruKeys (setAll (newLRU N d) ?all)) = set (map fst ?all) - {fst (hd ?all)}"
    unfolding keys by auto
next
  fix k' now' c' it
  assume N: "2 \<le> N" and g: "lruCache_get (setAll (newLRU N d) es) k' now' = (c', Some it)"
  let ?c = "setAll (newLRU N d) es"
  from assms(3) have d: "distinct (map fst es)" "k \<notin> set (map fst es)" by auto
  have keys: "lruKeys ?c = rev (map fst es)"
    using lruKeys_setAll_new [OF d(1), of N d] assms(2) by simp
  from g keys d show k': "lruKeys c' = k' # remove1 k' (rev (map fst es))"
    by (simp add: lruKeys_get_hit)
  from g have "lruItems ?c k' = Some it" by (auto dest: lruCache_get_hit)
  then have "k' \<in> set (lruKeys ?c)"
    using lruItems_None_iff [of ?c k'] by auto
  with keys have in_es: "k' \<in> set (map fst es)" by simp
  with d have "k \<noteq> k'" by auto
  with d k' have new: "k \<notin> set (lruKeys c')" by (auto dest: notin_set_remove1)
  have "maxLen ?c = N"
  proof -
    have "\<And>c. maxLen (setAll c es) = maxLen c"
      by (induction es) (auto simp: lruCache_set_fields)
    then show ?thesis by (simp add: newLRU_def)
  qed
  with g have m: "maxLen c' = N" using lruCache_get_fields [of ?c k' now'] by simp
  have l: "length (remove1 k' (rev (map fst es))) = nat N - 1"
    using in_es assms(2) by (simp add: length_remove1)
  from N have "nat N = Suc (Suc (nat N - 2))" by simp
  then have "take (nat N) (k # k' # remove1 k' (rev (map fst es)))
               = k # k' # take (nat N - 2) (remove1 k' (rev (map fst es)))"
    by (metis take_Suc_Cons)
  also have "take (nat N - 2) (remove1 k' (rev (map fst es))) = butlast (remove1 k' (rev (map fst es)))"
  proof -
    have "length (remove1 k' (rev (map fst es))) - 1 = nat N - 2" using l by arith
    then show ?thesis by (simp only: butlast_conv_take)
  qed
  finally show "lruKeys (lruCache_set c' k t b f s now) = k # k' # butlast (remove1 k' (rev (map fst es)))"
    using lruKeys_set_new [OF new, of t b f s now] m k' by simp
qed

theorem lru_evicts_least_recent_witness:
  "lruKeys (setAll (newLRU 2 cacheTTL)
      [(''a'', ''ta'', ''ba'', ''fa'', ''online'', 1), (''b'', ''tb'', ''bb'', ''fb'', ''online'', 2),
       (''c'', ''tc'', ''bc'', ''fc'', ''online'', 4)]) = [''c'', ''b'']
   \<and> lruKeys (lruCache_set
        (fst (lruCache_get
           (setAll (newLRU 2 cacheTTL)
              [(''a'', ''ta'', ''ba'', ''fa'', ''online'', 1), (''b'', ''tb'', ''bb'', ''fb'', ''online'', 2)])
           ''a'' 3))
        ''c'' ''tc'' ''bc'' ''fc'' ''online'' 4) = [''c'', ''a'']"
proof -
  let ?es = "[(''a'', ''ta'', ''ba'', ''fa'', ''online'', 1::int),
              (''b'', ''tb'', ''bb'', ''fb'', ''online'', 2)]"
  let ?c = "setAll (newLRU 2 cacheTTL) ?es"
  have h1: "(0::int) \<le> 2" by simp
  have h2: "length ?es = nat 2" by simp
  have h3: "distinct (map fst (?es @ [(''c'', ''tc'', ''bc'', ''fc'', ''online'', 4::int)]))" by simp
  note T = lru_evicts_least_recent [OF h1 h2 h3, of cacheTTL]
  have "snd (lruCache_get ?c ''a'' 3) \<noteq> None"
    by (simp add: newLRU_def lruCache_set_def lruCache_get_def lruItems_def evict_take
        since_def minDuration_def maxDuration_def cacheTTL_def hour_def)
  then obtain it where g: "lruCache_get ?c ''a'' 3 = (fst (lruCache_get ?c ''a'' 3), Some it)"
    by (cases "lruCache_get ?c ''a'' 3") auto
  from T have "lruCache_get ?c ''a'' 3 = (fst (lruCache_get ?c ''a'' 3), Some it) \<longrightarrow>
      lruKeys (lruCache_set (fst (lruCache_get ?c ''a'' 3)) ''c'' ''tc'' ''bc'' ''fc'' ''online'' 4)
        = ''c'' # ''a'' # butlast (remove1 ''a'' (rev (map fst ?es)))"
    by blast
  with g T show ?thesis by simp
qed

section \<open>Properties of the resolver\<close>

subsection \<open>The chain as a search through the attempts\<close>

lemma find_append_cases:
  "find P (xs @ ys) = (case find P xs of None \<Rightarrow> find P ys | Some x \<Rightarrow> Some x)"
  by (induction xs) auto

lemma takeWhile_not_found: "find P xs = None \<Longrightarrow> takeWhile (\<lambda>a. \<not> P a) xs = xs"
  by (induction xs) (auto split: if_splits)

lemma takeWhile_append_not_found:
  "find P xs = None \<Longrightarrow> takeWhile (\<lambda>a. \<not> P a) (xs @ ys) = xs @ takeWhile (\<lambda>a. \<not> P a) ys"
  by (induction xs) (auto split: if_splits)

lemma takeWhile_append_found:
  "find P xs = Some a \<Longrightarrow> takeWhile (\<lambda>a. \<not> P a) (xs @ ys) = takeWhile (\<lambda>a. \<not> P a) xs"
  by (induction xs) (auto split: if_splits)

lemma yields_textOf: "yields e a \<Longrightarrow> textOf e a \<noteq> []"
  by (auto simp: yields_def textOf_def split: sum.splits)

lemma tryCands_find:
  "tryCands p (call e p) tag cands vars =
     (case find (yields e) (map (Pair p) cands) of
        None \<Rightarrow> (vars, map (Pair p) cands)
      | Some a \<Rightarrow>
          ((textOf e a, snd a, tag),
           takeWhile (\<lambda>a. \<not> yields e a) (map (Pair p) cands) @ [a]))"
proof (induction cands)
  case Nil
  then show ?case by simp
next
  case (Cons c cands)
  show ?case
  proof (cases "yields e (p, c)")
    case True
    then show ?thesis
      by (auto simp: yields_def textOf_def split: sum.splits)
  next
    case False
    then have "tryCands p (call e p) tag (c # cands) vars =
        (let (r, tr) = tryCands p (call e p) tag cands vars in (r, (p, c) # tr))"
      by (auto simp: yields_def split: sum.splits)
    with False Cons show ?thesis
      by (simp split: option.splits)
  qed
qed

lemma find_Pair_fst: "find P (map (Pair p) cands) = Some a \<Longrightarrow> fst a = p"
  by (auto simp: find_Some_iff)

lemma attempts_unfold:
  "attempts cfg word =
     map (Pair Primary) (lemmaCandidates word) @ map (Pair Wiktionary) (lemmaCandidates word)
     @ (if noOffline cfg then [] else map (Pair Offline) (lemmaCandidates word))"
  by (simp add: attempts_def providers_def)

lemma lookupChain_find:
  "lookupChain cfg e word =
     (case find (yields e) (attempts cfg word) of
        None \<Rightarrow> ((''No definition found.'', word, ''none''), attempts cfg word)
      | Some a \<Rightarrow>
          ((textOf e a, snd a, sourceKind (fst a)),
           takeWhile (\<lambda>a. \<not> yields e a) (attempts cfg word) @ [a]))"
proof -
  let ?L = "lemmaCandidates word"
  let ?A1 = "map (Pair Primary) ?L" and ?A2 = "map (Pair Wiktionary) ?L"
  let ?A3 = "map (Pair Offline) ?L"
  let ?rest = "if noOffline cfg then [] else ?A3"
  have c1: "call e Primary = lookupPrimary e" and c2: "call e Wiktionary = lookupWiktionary e"
    and c3: "call e Offline = offlineLookup e" by (simp_all add: fun_eq_iff)
  note t1 = tryCands_find [of Primary e, unfolded c1]
  note t2 = tryCands_find [of Wiktionary e, unfolded c2]
  note t3 = tryCands_find [of Offline e, unfolded c3]
  show ?thesis
  proof (cases "find (yields e) ?A1")
    case (Some a)
    then have "yields e a" "fst a = Primary"
      by (auto simp: find_Some_iff)
    with Some show ?thesis
      by (simp add: lookupChain_def t1 attempts_unfold find_append_cases
          takeWhile_append_found yields_textOf)
  next
    case n1: None
    show ?thesis
    proof (cases "find (yields e) ?A2")
      case (Some a)
      then have "yields e a" "fst a = Wiktionary"
        by (auto simp: find_Some_iff)
      with Some n1 show ?thesis
        by (simp add: lookupChain_def t1 t2 attempts_unfold find_append_cases
            takeWhile_append_found takeWhile_append_not_found yields_textOf)
    next
      case n2: None
      show ?thesis
      proof (cases "noOffline cfg")
        case True
        with n1 n2 show ?thesis
          by (simp add: lookupChain_def t1 t2 attempts_unfold find_append_cases
              takeWhile_append_not_found)
      next
        case False
        show ?thesis
        proof (cases "find (yields e) ?A3")
          case (Some a)
          then have "yields e a" "fst a = Offline"
            by (auto simp: find_Some_iff)
          with Some n1 n2 False show ?thesis
            by (simp add: lookupChain_def t1 t2 t3 attempts_unfold find_append_cases
                takeWhile_append_not_found yields_textOf)
        next
          case None
          with n1 n2 False show ?thesis
            by (simp add: lookupChain_def t1 t2 t3 attempts_unfold find_append_cases
                takeWhile_append_not_found)
        qed
      qed
    qed
  qed
qed

subsection \<open>The branches of resolveDefinition\<close>

lemma resolveDefinition_Miss:
  "lookupPath clk st word = Miss \<Longrightarrow>
     resolveDefinition cfg e clk st word =
       resolveMiss cfg e clk
         (st\<lparr>mem := fst (lruCache_get (mem st) (toLower word) (nowGet clk))\<rparr>) word"
  by (auto simp: lookupPath_def resolveDefinition_def Let_def split_def
      split: option.splits if_splits)

lemma resolveDefinition_MemHit:
  "lookupPath clk st word = MemHit \<Longrightarrow>
     \<exists>m it. lruCache_get (mem st) (toLower word) (nowGet clk) = (m, Some it)
       \<and> resolveDefinition cfg e clk st word =
           Returned (title it, body it, full it, src it) (st\<lparr>mem := m\<rparr>) []"
  by (cases "lruCache_get (mem st) (toLower word) (nowGet clk)")
     (auto simp: lookupPath_def resolveDefinition_def Let_def split: option.splits if_splits)

lemma resolveDefinition_DiskHit:
  "lookupPath clk st word = DiskHit \<Longrightarrow>
     \<exists>m de. lruCache_get (mem st) (toLower word) (nowGet clk) = (m, None)
       \<and> mapGet (disk st) (toLower word) = Some de
       \<and> \<not> (Source de = ''offline'' \<and> since (nowOffline clk) (TS de) > offlineRefreshAfter)
       \<and> since (nowTTL clk) (TS de) \<le> cacheTTL
       \<and> resolveDefinition cfg e clk st word =
           Returned (Title de, Body de, Full de, Source de)
             (st\<lparr>mem := lruCache_set m (toLower word) (Title de) (Body de) (Full de) (Source de)
                         (nowSet clk)\<rparr>) []"
  by (cases "lruCache_get (mem st) (toLower word) (nowGet clk)")
     (auto simp: lookupPath_def resolveDefinition_def Let_def split: option.splits if_splits)

text \<open>
  What \<open>resolveMiss\<close> computes and stores, in terms of the outcome of the
  chain: when the persisted map is a map, when it is nil, and in both cases.
\<close>

lemma resolveMiss_unfold:
  assumes "lookupChain cfg e word = ((out, used, source), tr)" and "disk st = MapOf dm"
  shows "resolveMiss cfg e clk st word =
     Returned
      (bookPrefix @ cap1 word @ '' '' @ sourceEmoji source,
       ''<b><i>'' @ (if used \<noteq> [] \<and> toLower word \<noteq> used
                     then cap1 word @ arrowSep @ cap1 used else cap1 word)
         @ ''</i></b>'' @ [CHR 0x0A] @ clampBody (trimSpace out),
       trimSpace out, source)
      (st\<lparr>mem := lruCache_set (mem st) (toLower word)
                (bookPrefix @ cap1 word @ '' '' @ sourceEmoji source)
                (''<b><i>'' @ (if used \<noteq> [] \<and> toLower word \<noteq> used
                     then cap1 word @ arrowSep @ cap1 used else cap1 word)
                   @ ''</i></b>'' @ [CHR 0x0A] @ clampBody (trimSpace out))
                (trimSpace out) source (nowSet clk),
         disk := MapOf (dm(toLower word \<mapsto>
                \<lparr>Title = bookPrefix @ cap1 word @ '' '' @ sourceEmoji source,
                 Body = ''<b><i>'' @ (if used \<noteq> [] \<and> toLower word \<noteq> used
                     then cap1 word @ arrowSep @ cap1 used else cap1 word)
                   @ ''</i></b>'' @ [CHR 0x0A] @ clampBody (trimSpace out),
                 Full = trimSpace out, TS = nowDisk clk, Source = source\<rparr>)),
         diskDirty := True,
         lastFile := writeLast (lastWrite e) (trimSpace out) (lastFile st)\<rparr>)
      tr"
  using assms by (simp add: resolveMiss_def Let_def)

lemma resolveMiss_nil:
  assumes "lookupChain cfg e word = ((out, used, source), tr)" and "disk st = NilMap"
  shows "resolveMiss cfg e clk st word =
     Panicked
      (bookPrefix @ cap1 word @ '' '' @ sourceEmoji source,
       ''<b><i>'' @ (if used \<noteq> [] \<and> toLower word \<noteq> used
                     then cap1 word @ arrowSep @ cap1 used else cap1 word)
         @ ''</i></b>'' @ [CHR 0x0A] @ clampBody (trimSpace out),
       trimSpace out, source)
      (st\<lparr>mem := lruCache_set (mem st) (toLower word)
                (bookPrefix @ cap1 word @ '' '' @ sourceEmoji source)
                (''<b><i>'' @ (if used \<noteq> [] \<and> toLower word \<noteq> used
                     then cap1 word @ arrowSep @ cap1 used else cap1 word)
                   @ ''</i></b>'' @ [CHR 0x0A] @ clampBody (trimSpace out))
                (trimSpace out) source (nowSet clk),
         lastFile := writeLast (lastWrite e) (trimSpace out) (lastFile st)\<rparr>)
      tr"
  using assms by (simp add: resolveMiss_def Let_def)

lemma resolveMiss_both:
  assumes "lookupChain cfg e word = ((out, used, source), tr)"
  shows "result (resolveMiss cfg e clk st word) =
      (bookPrefix @ cap1 word @ '' '' @ sourceEmoji source,
       ''<b><i>'' @ (if used \<noteq> [] \<and> toLower word \<noteq> used
                     then cap1 word @ arrowSep @ cap1 used else cap1 word)
         @ ''</i></b>'' @ [CHR 0x0A] @ clampBody (trimSpace out),
       trimSpace out, source)"
    and "lookups (resolveMiss cfg e clk st word) = tr"
    and "mem (stateAfter (resolveMiss cfg e clk st word)) =
      lruCache_set (mem st) (toLower word)
                (bookPrefix @ cap1 word @ '' '' @ sourceEmoji source)
                (''<b><i>'' @ (if used \<noteq> [] \<and> toLower word \<noteq> used
                     then cap1 word @ arrowSep @ cap1 used else cap1 word)
                   @ ''</i></b>'' @ [CHR 0x0A] @ clampBody (trimSpace out))
                (trimSpace out) source (nowSet clk)"
    and "lastFile (stateAfter (resolveMiss cfg e clk st word)) =
      writeLast (lastWrite e) (trimSpace out) (lastFile st)"
    and "cacheFile (stateAfter (resolveMiss cfg e clk st word)) = cacheFile st"
    and "tmpFile (stateAfter (resolveMiss cfg e clk st word)) = tmpFile st"
proof -
  show "result (resolveMiss cfg e clk st word) =
      (bookPrefix @ cap1 word @ '' '' @ sourceEmoji source,
       ''<b><i>'' @ (if used \<noteq> [] \<and> toLower word \<noteq> used
                     then cap1 word @ arrowSep @ cap1 used else cap1 word)
         @ ''</i></b>'' @ [CHR 0x0A] @ clampBody (trimSpace out),
       trimSpace out, source)"
    by (cases "disk st") (simp_all add: resolveMiss_unfold [OF assms] resolveMiss_nil [OF assms])
  show "lookups (resolveMiss cfg e clk st word) = tr"
    by (cases "disk st") (simp_all add: resolveMiss_unfold [OF assms] resolveMiss_nil [OF assms])
  show "mem (stateAfter (resolveMiss cfg e clk st word)) =
      lruCache_set (mem st) (toLower word)
                (bookPrefix @ cap1 word @ '' '' @ sourceEmoji source)
                (''<b><i>'' @ (if used \<noteq> [] \<and> toLower word \<noteq> used
                     then cap1 word @ arrowSep @ cap1 used else cap1 word)
                   @ ''</i></b>'' @ [CHR 0x0A] @ clampBody (trimSpace out))
                (trimSpace out) source (nowSet clk)"
    by (cases "disk st") (simp_all add: resolveMiss_unfold [OF assms] resolveMiss_nil [OF assms])
  show "lastFile (stateAfter (resolveMiss cfg e clk st word)) =
      writeLast (lastWrite e) (trimSpace out) (lastFile st)"
    by (cases "disk st") (simp_all add: resolveMiss_unfold [OF assms] resolveMiss_nil [OF assms])
  show "cacheFile (stateAfter (resolveMiss cfg e clk st word)) = cacheFile st"
    by (cases "disk st") (simp_all add: resolveMiss_unfold [OF assms] resolveMiss_nil [OF assms])
  show "tmpFile (stateAfter (resolveMiss cfg e clk st word)) = tmpFile st"
    by (cases "disk st") (simp_all add: resolveMiss_unfold [OF assms] resolveMiss_nil [OF assms])
qed

text \<open>A call that runs the chain returns unless the persisted map is nil.\<close>

lemma resolveMiss_returns:
  "(\<exists>r st' tr. resolveMiss cfg e clk st word = Returned r st' tr) = (disk st \<noteq> NilMap)"
proof -
  obtain out used source tr where ch: "lookupChain cfg e word = ((out, used, source), tr)"
    by (metis prod.exhaust)
  show ?thesis
    by (cases "disk st") (simp_all add: resolveMiss_unfold [OF ch] resolveMiss_nil [OF ch])
qed
subsection \<open>What a call leaves in the memory tier\<close>

lemma lruItems_set:
  assumes "1 \<le> maxLen c"
  shows "lruItems (lruCache_set c k t b f s now) k =
           Some \<lparr>key = k, title = t, body = b, full = f, ts = now, src = s\<rparr>"
proof -
  from lruCache_set_head [OF assms, of k t b f s now]
  obtain rest where "ll (lruCache_set c k t b f s now) =
      \<lparr>key = k, title = t, body = b, full = f, ts = now, src = s\<rparr> # rest" ..
  then show ?thesis by (simp add: lruItems_def)
qed

lemma resolveDefinition_fresh_mem:
  assumes "lruItems (mem st) (toLower w) = Some it" "since (nowGet clk) (ts it) \<le> ttl (mem st)"
  shows "resolveDefinition cfg e clk st w =
           Returned (title it, body it, full it, src it)
             (st\<lparr>mem := (mem st)\<lparr>ll := it # remove1 it (ll (mem st))\<rparr>\<rparr>) []"
  using assms by (simp add: resolveDefinition_def lruCache_get_def)

text \<open>
  What a call that runs the chain leaves behind.  The memory tier and
  \<^verbatim>\<open>last.txt\<close> are written before the assignment to the persisted map, so
  whether that assignment panics or not; the persisted entry and the dirty
  flag are there when the map is not nil, and then the call returns.
\<close>

lemma resolveDefinition_Miss_stored:
  assumes "lookupPath clk st w = Miss"
    and "result (resolveDefinition cfg e clk st w) = (ti, bd, fl, source)"
    and "stateAfter (resolveDefinition cfg e clk st w) = st'"
  shows "disk st = MapOf dm \<Longrightarrow>
           disk st' = MapOf (dm(toLower w \<mapsto>
             \<lparr>Title = ti, Body = bd, Full = fl, TS = nowDisk clk, Source = source\<rparr>))"
    and "disk st \<noteq> NilMap \<Longrightarrow> diskDirty st'"
    and "lastFile st' = writeLast (lastWrite e) fl (lastFile st)"
    and "maxLen (mem st') = maxLen (mem st)" and "ttl (mem st') = ttl (mem st)"
    and "1 \<le> maxLen (mem st) \<Longrightarrow>
           lruItems (mem st') (toLower w) =
             Some \<lparr>key = toLower w, title = ti, body = bd, full = fl, ts = nowSet clk, src = source\<rparr>"
    and "maxLen (mem st) \<le> 0 \<Longrightarrow> ll (mem st) = [] \<Longrightarrow> ll (mem st') = []"
    and "disk st \<noteq> NilMap \<Longrightarrow>
           resolveDefinition cfg e clk st w =
             Returned (ti, bd, fl, source) st' (lookups (resolveDefinition cfg e clk st w))"
    and "disk st = NilMap \<Longrightarrow>
           resolveDefinition cfg e clk st w =
             Panicked (ti, bd, fl, source) st' (lookups (resolveDefinition cfg e clk st w))"
    and "disk st = NilMap \<Longrightarrow> disk st' = NilMap \<and> diskDirty st' = diskDirty st"
proof -
  obtain out used src0 tr0 where ch: "lookupChain cfg e w = ((out, used, src0), tr0)"
    by (metis prod.exhaust)
  let ?m = "fst (lruCache_get (mem st) (toLower w) (nowGet clk))"
  let ?st = "st\<lparr>mem := ?m\<rparr>"
  have m: "maxLen ?m = maxLen (mem st)" "ttl ?m = ttl (mem st)"
    by (simp_all add: lruCache_get_fields)
  have R: "resolveDefinition cfg e clk st w = resolveMiss cfg e clk ?st w"
    by (rule resolveDefinition_Miss [OF assms(1)])
  note b = resolveMiss_both [OF ch, of clk ?st]
  from assms(2) [unfolded R b(1)] have res: "ti = bookPrefix @ cap1 w @ '' '' @ sourceEmoji src0"
    "bd = ''<b><i>'' @ (if used \<noteq> [] \<and> toLower w \<noteq> used
                     then cap1 w @ arrowSep @ cap1 used else cap1 w)
         @ ''</i></b>'' @ [CHR 0x0A] @ clampBody (trimSpace out)"
    "fl = trimSpace out" "source = src0"
    by auto
  from b(3) have mem: "mem st' = lruCache_set ?m (toLower w) ti bd fl source (nowSet clk)"
    unfolding R [symmetric] assms(3) res by simp
  from b(4) show "lastFile st' = writeLast (lastWrite e) fl (lastFile st)"
    unfolding R [symmetric] assms(3) res by simp
  from mem m show "maxLen (mem st') = maxLen (mem st)" "ttl (mem st') = ttl (mem st)"
    by (simp_all add: lruCache_set_fields)
  {
    assume "1 \<le> maxLen (mem st)"
    with m have "1 \<le> maxLen ?m" by simp
    from lruItems_set [OF this] mem
    show "lruItems (mem st') (toLower w) =
             Some \<lparr>key = toLower w, title = ti, body = bd, full = fl, ts = nowSet clk, src = source\<rparr>"
      by simp
  }
  {
    assume a: "maxLen (mem st) \<le> 0" "ll (mem st) = []"
    then have "ll ?m = []" by (simp add: lruCache_get_def lruItems_def)
    with a m mem show "ll (mem st') = []"
      by (simp add: lruCache_set_small)
  }
  have RR: "resolveDefinition cfg e clk st w =
      Returned (ti, bd, fl, source)
        (?st\<lparr>mem := lruCache_set ?m (toLower w) ti bd fl source (nowSet clk),
             disk := MapOf (dm'(toLower w \<mapsto>
               \<lparr>Title = ti, Body = bd, Full = fl, TS = nowDisk clk, Source = source\<rparr>)),
             diskDirty := True,
             lastFile := writeLast (lastWrite e) fl (lastFile st)\<rparr>) tr0"
    if "disk st = MapOf dm'" for dm'
  proof -
    from that have d: "disk ?st = MapOf dm'" by simp
    show ?thesis
      unfolding R resolveMiss_unfold [OF ch d] res by simp
  qed
  have PP: "resolveDefinition cfg e clk st w =
      Panicked (ti, bd, fl, source)
        (?st\<lparr>mem := lruCache_set ?m (toLower w) ti bd fl source (nowSet clk),
             lastFile := writeLast (lastWrite e) fl (lastFile st)\<rparr>) tr0"
    if "disk st = NilMap"
  proof -
    from that have d: "disk ?st = NilMap" by simp
    show ?thesis
      unfolding R resolveMiss_nil [OF ch d] res by simp
  qed
  {
    assume d: "disk st = MapOf dm"
    from assms(3) [unfolded RR [OF d]]
    show "disk st' = MapOf (dm(toLower w \<mapsto>
             \<lparr>Title = ti, Body = bd, Full = fl, TS = nowDisk clk, Source = source\<rparr>))"
      by auto
  }
  {
    assume "disk st \<noteq> NilMap"
    then obtain dm' where d: "disk st = MapOf dm'" by (cases "disk st") auto
    from assms(3) [unfolded RR [OF d]]
    show "diskDirty st'" by auto
    from assms(3) [unfolded RR [OF d]]
    show "resolveDefinition cfg e clk st w =
             Returned (ti, bd, fl, source) st' (lookups (resolveDefinition cfg e clk st w))"
      unfolding RR [OF d] by simp
  }
  {
    assume d: "disk st = NilMap"
    from assms(3) [unfolded PP [OF d]]
    show "resolveDefinition cfg e clk st w =
             Panicked (ti, bd, fl, source) st' (lookups (resolveDefinition cfg e clk st w))"
      unfolding PP [OF d] by simp
    from assms(3) [unfolded PP [OF d]] d
    show "disk st' = NilMap \<and> diskDirty st' = diskDirty st" by auto
  }
qed

lemma resolveDefinition_leaves_entry:
  assumes "1 \<le> maxLen (mem st)"
    and "result (resolveDefinition cfg e clk st w) = r"
    and "stateAfter (resolveDefinition cfg e clk st w) = st1"
  shows "\<exists>it. lruItems (mem st1) (toLower w) = Some it
           \<and> (title it, body it, full it, src it) = r \<and> ttl (mem st1) = ttl (mem st)"
proof (cases "lookupPath clk st w")
  case MemHit
  from resolveDefinition_MemHit [OF this, of cfg e] assms(2,3)
  obtain m it where g: "lruCache_get (mem st) (toLower w) (nowGet clk) = (m, Some it)"
    and r: "r = (title it, body it, full it, src it)" "st1 = st\<lparr>mem := m\<rparr>"
    by auto
  from lruCache_get_hit [OF g] have "key it = toLower w" "m = (mem st)\<lparr>ll := it # remove1 it (ll (mem st))\<rparr>"
    by simp_all
  with r show ?thesis by (simp add: lruItems_def)
next
  case DiskHit
  from resolveDefinition_DiskHit [OF this, of cfg e]
  obtain m and de :: diskEntry
    where g: "lruCache_get (mem st) (toLower w) (nowGet clk) = (m, None)"
    and rd: "resolveDefinition cfg e clk st w =
      Returned (Title de, Body de, Full de, Source de)
       (st\<lparr>mem := lruCache_set m (toLower w) (Title de) (Body de) (Full de) (Source de)
                   (nowSet clk)\<rparr>) []"
    by blast
  from rd assms(2,3) have r: "r = (Title de, Body de, Full de, Source de)"
      "st1 = st\<lparr>mem := lruCache_set m (toLower w) (Title de) (Body de) (Full de) (Source de)
                        (nowSet clk)\<rparr>"
    by simp_all
  from g have m: "maxLen m = maxLen (mem st)" "ttl m = ttl (mem st)"
    using lruCache_get_fields [of "mem st" "toLower w" "nowGet clk"] by simp_all
  with assms(1) have "1 \<le> maxLen m" by simp
  from lruItems_set [OF this] r m show ?thesis
    by (simp add: lruCache_set_fields)
next
  case Miss
  obtain ti bd fl source where r: "r = (ti, bd, fl, source)" by (metis prod.exhaust)
  from resolveDefinition_Miss_stored(5,6) [OF Miss assms(2) [unfolded r] assms(3)] assms(1) r
  show ?thesis by simp
qed

text \<open>
  Claim C1.  After a call for a valid word, the memory tier (of capacity at
  least 1) holds an entry for the lowercased word with the tuple the call
  computed; a second call for a word with the same lowercased key, made while
  that entry is within the TTL of the memory tier, returns the same tuple and
  looks nothing up, whatever the providers would answer.
\<close>

theorem resolve_idempotent_within_ttl:
  assumes "validWord w" and "1 \<le> maxLen (mem st)"
    and "result (resolveDefinition cfg e clk st w) = r"
    and "stateAfter (resolveDefinition cfg e clk st w) = st1"
    and "toLower w' = toLower w"
  shows "\<exists>it. lruItems (mem st1) (toLower w) = Some it
           \<and> ttl (mem st1) = ttl (mem st)
           \<and> (since (nowGet clk') (ts it) \<le> ttl (mem st1) \<longrightarrow>
                (\<exists>st2. resolveDefinition cfg' e' clk' st1 w' = Returned r st2 []))"
proof -
  from resolveDefinition_leaves_entry [OF assms(2,3,4)]
  obtain it where it: "lruItems (mem st1) (toLower w) = Some it"
    "(title it, body it, full it, src it) = r" "ttl (mem st1) = ttl (mem st)" by blast
  {
    assume "since (nowGet clk') (ts it) \<le> ttl (mem st1)"
    with it(1) assms(5) have "resolveDefinition cfg' e' clk' st1 w' =
        Returned (title it, body it, full it, src it)
         (st1\<lparr>mem := (mem st1)\<lparr>ll := it # remove1 it (ll (mem st1))\<rparr>\<rparr>) []"
      by (simp add: resolveDefinition_fresh_mem)
    with it(2) have "\<exists>st2. resolveDefinition cfg' e' clk' st1 w' = Returned r st2 []" by simp
  }
  with it show ?thesis by blast
qed
lemmas example_eval =
  daemonCfg_def daemonStart_def clockAt_def envNone_def envLegend_def envOfflineCat_def
  envOnlineCat_def newLRU_def memCacheMax_def loadDiskCache_def

lemmas time_eval = since_def minDuration_def maxDuration_def cacheTTL_def offlineRefreshAfter_def hour_def

lemma daemonStart_Miss: "lookupPath clk daemonStart w = Miss"
  by (simp add: lookupPath_def daemonStart_def newLRU_def lruCache_get_def lruItems_def
      loadDiskCache_def)

lemma daemonStart_disk: "disk daemonStart = MapOf Map.empty"
  by (simp add: daemonStart_def loadDiskCache_def)

theorem resolve_idempotent_within_ttl_witness:
  "validWord ''legends'' \<and> 1 \<le> maxLen (mem daemonStart)
   \<and> toLower ''Legends'' = toLower ''legends''
   \<and> (\<exists>st2. resolveDefinition daemonCfg envNone (clockAt hour)
          (stateAfter (resolveDefinition daemonCfg envLegend (clockAt 0) daemonStart ''legends''))
          ''Legends''
        = Returned (result (resolveDefinition daemonCfg envLegend (clockAt 0) daemonStart ''legends''))
            st2 [])"
proof -
  let ?R = "resolveDefinition daemonCfg envLegend (clockAt 0) daemonStart ''legends''"
  have v: "validWord ''legends''"
    by (simp add: validWord_def wordByte_def maxWordLen_def)
  have m: "1 \<le> maxLen (mem daemonStart)"
    by (simp add: example_eval)
  have l: "toLower ''Legends'' = toLower ''legends''"
    by code_simp
  from resolve_idempotent_within_ttl [OF v m refl refl l, of daemonCfg envLegend "clockAt 0"
      "clockAt hour" daemonCfg envNone]
  obtain it where it: "lruItems (mem (stateAfter ?R)) (toLower ''legends'') = Some it"
    "ttl (mem (stateAfter ?R)) = ttl (mem daemonStart)"
    and imp: "since (nowGet (clockAt hour)) (ts it) \<le> ttl (mem (stateAfter ?R)) \<longrightarrow>
      (\<exists>st2. resolveDefinition daemonCfg envNone (clockAt hour) (stateAfter ?R) ''Legends''
         = Returned (result ?R) st2 [])"
    by blast
  obtain ti bd fl so where R': "result ?R = (ti, bd, fl, so)" by (metis prod.exhaust)
  from resolveDefinition_Miss_stored(6) [OF daemonStart_Miss R' refl m] it(1)
  have "ts it = 0" by (auto simp: clockAt_def)
  moreover have "ttl (mem daemonStart) = cacheTTL"
    by (simp add: daemonStart_def newLRU_def)
  ultimately have "since (nowGet (clockAt hour)) (ts it) \<le> ttl (mem (stateAfter ?R))"
    unfolding it(2) by (simp add: clockAt_def time_eval)
  with imp v m l show ?thesis by blast
qed

subsection \<open>The order of the provider chain\<close>

lemma trimSpace_placeholder: "trimSpace ''No definition found.'' = ''No definition found.''"
proof -
  have "leadingSpace ''No definition found.'' = 0"
    by (simp add: leadingSpace_def spaceRunes_def)
  moreover have "trailingSpace ''No definition found.'' = 0"
    by (simp add: trailingSpace_def spaceRunes_def hasSuffix_def)
  ultimately show ?thesis
    by (simp add: trimSpace_def trimLeft_fix trimRight_fix)
qed

lemma resolveDefinition_Miss_chain:
  assumes "lookupPath clk st word = Miss"
    and "result (resolveDefinition cfg e clk st word) = (ti, bd, fl, source)"
    and "lookups (resolveDefinition cfg e clk st word) = tr"
  shows "\<exists>out used.
           lookupChain cfg e word = ((out, used, source), tr) \<and> fl = trimSpace out
           \<and> ti = bookPrefix @ cap1 word @ '' '' @ sourceEmoji source
           \<and> bd = ''<b><i>'' @ (if used \<noteq> [] \<and> toLower word \<noteq> used
                                  then cap1 word @ arrowSep @ cap1 used else cap1 word)
                    @ ''</i></b>'' @ [CHR 0x0A] @ clampBody fl"
proof -
  obtain out used src0 tr0 where ch: "lookupChain cfg e word = ((out, used, src0), tr0)"
    by (metis prod.exhaust)
  note b = resolveMiss_both(1,2) [OF ch]
  from assms(2,3) [unfolded resolveDefinition_Miss [OF assms(1)] b] ch
  show ?thesis by auto
qed

text \<open>
  Claim C2, as the code has it.  When both tiers miss, the lookups made are
  an initial stretch of the list of attempts: every lemma candidate against
  the primary service, then every candidate against the secondary service,
  then, unless \<^verbatim>\<open>--no-offline\<close> is set, every candidate against the offline
  dictionary.  The stretch ends with the first attempt that yields a
  non-empty text, which gives the text, the lemma used and the source kind
  of the result; when none yields, every attempt is made and the result is
  the placeholder with source \<^verbatim>\<open>none\<close>.
\<close>

theorem provider_chain_order:
  assumes "lookupPath clk st word = Miss"
    and "result (resolveDefinition cfg e clk st word) = (ti, bd, fl, source)"
    and "lookups (resolveDefinition cfg e clk st word) = tr"
  shows "attempts cfg word =
           map (Pair Primary) (lemmaCandidates word) @ map (Pair Wiktionary) (lemmaCandidates word)
           @ (if noOffline cfg then [] else map (Pair Offline) (lemmaCandidates word))
         \<and> (case find (yields e) (attempts cfg word) of
               Some a \<Rightarrow>
                 tr = takeWhile (\<lambda>a. \<not> yields e a) (attempts cfg word) @ [a]
                 \<and> lookupChain cfg e word = ((textOf e a, snd a, sourceKind (fst a)), tr)
                 \<and> source = sourceKind (fst a) \<and> fl = trimSpace (textOf e a)
             | None \<Rightarrow>
                 tr = attempts cfg word
                 \<and> lookupChain cfg e word = ((''No definition found.'', word, ''none''), tr)
                 \<and> source = ''none'' \<and> fl = ''No definition found.'')"
proof -
  from resolveDefinition_Miss_chain [OF assms]
  obtain out used where ch: "lookupChain cfg e word = ((out, used, source), tr)"
    and fl: "fl = trimSpace out" by blast
  from ch fl show ?thesis
    by (auto simp: lookupChain_find attempts_unfold [symmetric] trimSpace_placeholder
        split: option.splits)
qed

lemma attempts_legends:
  "attempts daemonCfg ''legends'' =
     [(Primary, ''legends''), (Primary, ''legend''), (Wiktionary, ''legends''),
      (Wiktionary, ''legend''), (Offline, ''legends''), (Offline, ''legend'')]"
  by (simp add: attempts_unfold lemma_eval daemonCfg_def)

theorem provider_chain_order_witness:
  "lookupPath (clockAt 0) daemonStart ''legends'' = Miss
   \<and> lookups (resolveDefinition daemonCfg envLegend (clockAt 0) daemonStart ''legends'')
       = [(Primary, ''legends''), (Primary, ''legend'')]
   \<and> snd (snd (snd (result (resolveDefinition daemonCfg envLegend (clockAt 0) daemonStart ''legends''))))
       = ''online''
   \<and> lookups (resolveDefinition daemonCfg envNone (clockAt 0) daemonStart ''legends'')
       = attempts daemonCfg ''legends''
   \<and> snd (snd (snd (result (resolveDefinition daemonCfg envNone (clockAt 0) daemonStart ''legends''))))
       = ''none''"
proof -
  let ?R = "resolveDefinition daemonCfg envLegend (clockAt 0) daemonStart ''legends''"
  let ?N = "resolveDefinition daemonCfg envNone (clockAt 0) daemonStart ''legends''"
  have R: "result ?R = (fst (result ?R), fst (snd (result ?R)), fst (snd (snd (result ?R))),
                  snd (snd (snd (result ?R))))" by simp
  have N: "result ?N = (fst (result ?N), fst (snd (result ?N)), fst (snd (snd (result ?N))),
                  snd (snd (snd (result ?N))))" by simp
  have f1: "find (yields envLegend) (attempts daemonCfg ''legends'') = Some (Primary, ''legend'')"
    by (simp add: attempts_legends yields_def envLegend_def envNone_def)
  have f2: "find (yields envNone) (attempts daemonCfg ''legends'') = None"
    by (simp add: attempts_legends yields_def envNone_def)
  have y: "\<not> yields envLegend (Primary, ''legends'')" "yields envLegend (Primary, ''legend'')"
    by (simp_all add: yields_def envLegend_def envNone_def)
  from provider_chain_order [OF daemonStart_Miss R refl] f1 y
  have "lookups ?R = [(Primary, ''legends''), (Primary, ''legend'')]"
    "snd (snd (snd (result ?R))) = ''online''"
    by (simp_all add: attempts_legends)
  moreover from provider_chain_order [OF daemonStart_Miss N refl] f2
  have "lookups ?N = attempts daemonCfg ''legends''" "snd (snd (snd (result ?N))) = ''none''"
    by simp_all
  ultimately show ?thesis by (simp add: daemonStart_Miss)
qed

text \<open>
  Claim C2 as it is written has the offline dictionary queried whenever the
  two services fail.  With \<^verbatim>\<open>--no-offline\<close> it is not: the offline dictionary
  would yield a text for \<^verbatim>\<open>cat\<close>, no lookup of it is made and the result is
  the placeholder.
\<close>

theorem no_offline_counterexample:
  "yields envOfflineCat (Offline, ''cat'')
   \<and> lookupPath (clockAt 0) daemonStart ''cat'' = Miss
   \<and> lookups (resolveDefinition (daemonCfg\<lparr>noOffline := True\<rparr>) envOfflineCat (clockAt 0)
                 daemonStart ''cat'')
       = [(Primary, ''cat''), (Wiktionary, ''cat'')]
   \<and> snd (snd (snd (result (resolveDefinition (daemonCfg\<lparr>noOffline := True\<rparr>) envOfflineCat
                             (clockAt 0) daemonStart ''cat''))))
       = ''none''"
proof -
  let ?cfg = "daemonCfg\<lparr>noOffline := True\<rparr>"
  let ?R = "resolveDefinition ?cfg envOfflineCat (clockAt 0) daemonStart ''cat''"
  have R: "result ?R = (fst (result ?R), fst (snd (result ?R)), fst (snd (snd (result ?R))),
                  snd (snd (snd (result ?R))))" by simp
  have a: "attempts ?cfg ''cat'' = [(Primary, ''cat''), (Wiktionary, ''cat'')]"
    by (simp add: attempts_unfold lemma_eval daemonCfg_def)
  have "find (yields envOfflineCat) (attempts ?cfg ''cat'') = None"
    by (simp add: a yields_def envOfflineCat_def envNone_def)
  then have "lookupChain ?cfg envOfflineCat ''cat''
               = ((''No definition found.'', ''cat'', ''none''), attempts ?cfg ''cat'')"
    by (simp add: lookupChain_find)
  with resolveDefinition_Miss_chain [OF daemonStart_Miss R refl]
  have "lookups ?R = attempts ?cfg ''cat''" "snd (snd (snd (result ?R))) = ''none''"
    by auto
  moreover have "yields envOfflineCat (Offline, ''cat'')"
    by (simp add: yields_def envOfflineCat_def envNone_def)
  ultimately show ?thesis by (simp add: a daemonStart_Miss)
qed
subsection \<open>The shape of title and body\<close>









subsection \<open>The result when nothing is found\<close>

lemma clampBody_placeholder: "clampBody ''No definition found.'' = ''No definition found.''"
  by (simp add: clampBody_def trimSpace_placeholder bodyMaxChars_def)

lemma lruItems_set_cases:
  "lruItems (lruCache_set c k t b f s now) k =
       Some \<lparr>key = k, title = t, body = b, full = f, ts = now, src = s\<rparr>
   \<or> lruItems (lruCache_set c k t b f s now) k = None"
proof (cases "lruItems c k")
  case None
  then show ?thesis
    by (cases "nat (maxLen c)") (simp_all add: lruCache_set_def evict_take lruItems_def)
next
  case (Some it)
  then have "key it = k" by (rule lruItems_Some_key)
  then have "it\<lparr>title := t, body := b, full := f, ts := now, src := s\<rparr> =
             \<lparr>key = k, title = t, body = b, full = f, ts = now, src = s\<rparr>"
    by (cases it) simp
  with Some show ?thesis by (simp add: lruCache_set_def lruItems_def)
qed

text \<open>
  A call finds the result \<open>r\<close> in the caches when whatever the memory tier
  holds under the key carries \<open>r\<close> and the persisted entry carries \<open>r\<close> and
  is fresh.
\<close>

lemma resolveDefinition_cached:
  assumes mem: "\<And>it. lruItems (mem st) (toLower w) = Some it \<Longrightarrow>
                  (title it, body it, full it, src it) = r"
    and de: "mapGet (disk st) (toLower w) = Some de" "(Title de, Body de, Full de, Source de) = r"
    and fresh: "\<not> (Source de = ''offline'' \<and> since (nowOffline clk) (TS de) > offlineRefreshAfter)"
      "since (nowTTL clk) (TS de) \<le> cacheTTL"
  shows "\<exists>st2. resolveDefinition cfg e clk st w = Returned r st2 []"
proof (cases "lruItems (mem st) (toLower w)")
  case None
  then have "lruCache_get (mem st) (toLower w) (nowGet clk) = (mem st, None)"
    by (simp add: lruCache_get_def)
  with de fresh show ?thesis
    by (auto simp: resolveDefinition_def)
next
  case (Some it)
  show ?thesis
  proof (cases "since (nowGet clk) (ts it) > ttl (mem st)")
    case True
    with Some have "lruCache_get (mem st) (toLower w) (nowGet clk)
        = ((mem st)\<lparr>ll := remove1 it (ll (mem st))\<rparr>, None)"
      by (simp add: lruCache_get_def)
    with de fresh show ?thesis
      by (auto simp: resolveDefinition_def)
  next
    case False
    with Some mem [OF Some] show ?thesis
      by (simp add: resolveDefinition_fresh_mem)
  qed
qed

text \<open>
  Claim C6, as the code has it.  When both tiers miss, no attempt of the
  chain yields and the persisted map is not nil, the call returns (it has no
  error result) source \<^verbatim>\<open>none\<close> and the full text \<^verbatim>\<open>No definition found.\<close>; the
  body is the header line with the word followed by that text.  The result
  is stored in the persisted map, the dirty flag is set, the memory tier of
  capacity at least 1 holds it, and every later call for the same key within
  30 days of the persisted time stamp returns the same result without a
  lookup.
\<close>

theorem not_found_is_cached:
  assumes "lookupPath clk st word = Miss"
    and "\<forall>a\<in>set (attempts cfg word). \<not> yields e a"
    and "disk st \<noteq> NilMap"
    and "result (resolveDefinition cfg e clk st word) = (ti, bd, fl, source)"
    and "stateAfter (resolveDefinition cfg e clk st word) = st'"
    and "lookups (resolveDefinition cfg e clk st word) = tr"
  shows "resolveDefinition cfg e clk st word = Returned (ti, bd, fl, source) st' tr
         \<and> source = ''none'' \<and> fl = ''No definition found.'' \<and> tr = attempts cfg word
         \<and> bd = ''<b><i>''
                  @ (if toLower word = word then cap1 word else cap1 word @ arrowSep @ cap1 word)
                  @ ''</i></b>'' @ [CHR 0x0A] @ ''No definition found.''
         \<and> ti = bookPrefix @ cap1 word @ '' '' @ sourceEmoji ''none''
         \<and> mapGet (disk st') (toLower word)
             = Some \<lparr>Title = ti, Body = bd, Full = fl, TS = nowDisk clk, Source = ''none''\<rparr>
         \<and> diskDirty st'
         \<and> (1 \<le> maxLen (mem st) \<longrightarrow>
              lruItems (mem st') (toLower word)
                = Some \<lparr>key = toLower word, title = ti, body = bd, full = fl, ts = nowSet clk,
                        src = ''none''\<rparr>)
         \<and> (\<forall>cfg' e' clk' w'.
               toLower w' = toLower word \<and> since (nowTTL clk') (nowDisk clk) \<le> cacheTTL \<longrightarrow>
               (\<exists>st2. resolveDefinition cfg' e' clk' st' w' = Returned (ti, bd, fl, source) st2 []))"
proof -
  from assms(2) have "find (yields e) (attempts cfg word) = None"
    by (simp add: find_None_iff)
  then have ch: "lookupChain cfg e word
      = ((''No definition found.'', word, ''none''), attempts cfg word)"
    by (simp add: lookupChain_find)
  from resolveDefinition_Miss_chain [OF assms(1,4,6)] ch
  have r: "source = ''none''" "fl = ''No definition found.''" "tr = attempts cfg word"
    "ti = bookPrefix @ cap1 word @ '' '' @ sourceEmoji ''none''"
    "bd = ''<b><i>''
            @ (if toLower word = word then cap1 word else cap1 word @ arrowSep @ cap1 word)
            @ ''</i></b>'' @ [CHR 0x0A] @ ''No definition found.''"
    by (auto simp: trimSpace_placeholder clampBody_placeholder cap1_def toLower_def)
  note s = resolveDefinition_Miss_stored [OF assms(1,4,5)]
  from assms(3) obtain dm where dm: "disk st = MapOf dm" by (cases "disk st") auto
  from s(1) [OF dm] have d: "mapGet (disk st') (toLower word)
      = Some \<lparr>Title = ti, Body = bd, Full = fl, TS = nowDisk clk, Source = source\<rparr>"
    by simp
  from s(8) [OF assms(3)] assms(6)
  have ret: "resolveDefinition cfg e clk st word = Returned (ti, bd, fl, source) st' tr"
    by simp
  have again: "\<exists>st2. resolveDefinition cfg' e' clk' st' w' = Returned (ti, bd, fl, source) st2 []"
    if w': "toLower w' = toLower word" and t: "since (nowTTL clk') (nowDisk clk) \<le> cacheTTL"
    for cfg' e' clk' w'
  proof (rule resolveDefinition_cached)
    fix it
    assume "lruItems (mem st') (toLower w') = Some it"
    moreover obtain m where st': "mem st' = lruCache_set m (toLower word) ti bd fl source (nowSet clk)"
    proof -
      obtain out used src0 tr0 where c: "lookupChain cfg e word = ((out, used, src0), tr0)"
        by (metis prod.exhaust)
      from resolveMiss_both(1,3) [OF c, of clk
          "st\<lparr>mem := fst (lruCache_get (mem st) (toLower word) (nowGet clk))\<rparr>"]
        assms(4,5) [unfolded resolveDefinition_Miss [OF assms(1)]]
      show ?thesis by (auto intro: that)
    qed
    ultimately show "(title it, body it, full it, src it) = (ti, bd, fl, source)"
      using lruItems_set_cases [of m "toLower word" ti bd fl source "nowSet clk"] w' by auto
  next
    from d w' show "mapGet (disk st') (toLower w')
        = Some \<lparr>Title = ti, Body = bd, Full = fl, TS = nowDisk clk, Source = source\<rparr>" by simp
    show "(Title \<lparr>Title = ti, Body = bd, Full = fl, TS = nowDisk clk, Source = source\<rparr>,
           Body \<lparr>Title = ti, Body = bd, Full = fl, TS = nowDisk clk, Source = source\<rparr>,
           Full \<lparr>Title = ti, Body = bd, Full = fl, TS = nowDisk clk, Source = source\<rparr>,
           Source \<lparr>Title = ti, Body = bd, Full = fl, TS = nowDisk clk, Source = source\<rparr>)
          = (ti, bd, fl, source)" by simp
    from r(1) show "\<not> (Source \<lparr>Title = ti, Body = bd, Full = fl, TS = nowDisk clk, Source = source\<rparr>
          = ''offline''
        \<and> since (nowOffline clk')
            (TS \<lparr>Title = ti, Body = bd, Full = fl, TS = nowDisk clk, Source = source\<rparr>)
          > offlineRefreshAfter)" by simp
    from t show "since (nowTTL clk')
        (TS \<lparr>Title = ti, Body = bd, Full = fl, TS = nowDisk clk, Source = source\<rparr>) \<le> cacheTTL"
      by simp
  qed
  from ret d s(2) [OF assms(3)] s(6) r again show ?thesis by auto
qed

lemma yields_envNone: "\<not> yields envNone a"
  by (cases a, cases "fst a") (simp_all add: yields_def envNone_def)

lemma cap1_zzqx: "cap1 ''zzqx'' = ''Zzqx''"
  by code_simp

theorem not_found_is_cached_witness:
  "lookupPath (clockAt 0) daemonStart ''zzqx'' = Miss
   \<and> disk daemonStart \<noteq> NilMap
   \<and> (\<exists>st'. resolveDefinition daemonCfg envNone (clockAt 0) daemonStart ''zzqx''
        = Returned
            (bookPrefix @ ''Zzqx '' @ sourceEmoji ''none'',
             ''<b><i>Zzqx</i></b>'' @ [CHR 0x0A] @ ''No definition found.'',
             ''No definition found.'', ''none'')
            st' (attempts daemonCfg ''zzqx'')
        \<and> (\<exists>st2. resolveDefinition daemonCfg envLegend (clockAt hour) st' ''zzqx''
             = Returned
                 (bookPrefix @ ''Zzqx '' @ sourceEmoji ''none'',
                  ''<b><i>Zzqx</i></b>'' @ [CHR 0x0A] @ ''No definition found.'',
                  ''No definition found.'', ''none'')
                 st2 []))"
proof -
  let ?R = "resolveDefinition daemonCfg envNone (clockAt 0) daemonStart ''zzqx''"
  have R: "result ?R = (fst (result ?R), fst (snd (result ?R)), fst (snd (snd (result ?R))),
                  snd (snd (snd (result ?R))))" by simp
  have h: "\<forall>a\<in>set (attempts daemonCfg ''zzqx''). \<not> yields envNone a"
    by (simp add: yields_envNone)
  have n: "disk daemonStart \<noteq> NilMap" by (simp add: daemonStart_disk)
  have lw: "toLower ''zzqx'' = ''zzqx''" by (simp add: toLower_def toLowerByte_def)
  have t: "since (nowTTL (clockAt hour)) (nowDisk (clockAt 0)) \<le> cacheTTL"
    by (simp add: clockAt_def time_eval)
  note T = not_found_is_cached [OF daemonStart_Miss h n R refl refl]
  from T have src: "snd (snd (snd (result ?R))) = ''none''"
    and fl: "fst (snd (snd (result ?R))) = ''No definition found.''"
    and tr: "lookups ?R = attempts daemonCfg ''zzqx''"
    by blast+
  from T have "fst (snd (result ?R)) = ''<b><i>''
      @ (if toLower ''zzqx'' = ''zzqx'' then cap1 ''zzqx'' else cap1 ''zzqx'' @ arrowSep @ cap1 ''zzqx'')
      @ ''</i></b>'' @ [CHR 0x0A] @ ''No definition found.''"
    by blast
  then have bd: "fst (snd (result ?R)) = ''<b><i>Zzqx</i></b>'' @ [CHR 0x0A] @ ''No definition found.''"
    by (simp add: lw cap1_zzqx)
  from T have "fst (result ?R) = bookPrefix @ cap1 ''zzqx'' @ '' '' @ sourceEmoji ''none''"
    by blast
  then have ti: "fst (result ?R) = bookPrefix @ ''Zzqx '' @ sourceEmoji ''none''"
    by (simp add: cap1_zzqx)
  from R ti bd fl src have res: "result ?R =
      (bookPrefix @ ''Zzqx '' @ sourceEmoji ''none'',
       ''<b><i>Zzqx</i></b>'' @ [CHR 0x0A] @ ''No definition found.'',
       ''No definition found.'', ''none'')"
    by (metis (no_types))
  from T have "?R = Returned (fst (result ?R), fst (snd (result ?R)),
      fst (snd (snd (result ?R))), snd (snd (snd (result ?R)))) (stateAfter ?R) (lookups ?R)"
    by blast
  then have "?R = Returned (result ?R) (stateAfter ?R) (lookups ?R)"
    by simp
  note ret = this [unfolded res tr]
  from T lw t have "\<exists>st2. resolveDefinition daemonCfg envLegend (clockAt hour) (stateAfter ?R) ''zzqx''
      = Returned (fst (result ?R), fst (snd (result ?R)), fst (snd (snd (result ?R))),
          snd (snd (snd (result ?R)))) st2 []"
    by blast
  then have "\<exists>st2. resolveDefinition daemonCfg envLegend (clockAt hour) (stateAfter ?R) ''zzqx''
      = Returned (result ?R) st2 []"
    by simp
  note again = this [unfolded res]
  from ret again have "\<exists>st'. ?R
        = Returned
            (bookPrefix @ ''Zzqx '' @ sourceEmoji ''none'',
             ''<b><i>Zzqx</i></b>'' @ [CHR 0x0A] @ ''No definition found.'',
             ''No definition found.'', ''none'')
            st' (attempts daemonCfg ''zzqx'')
        \<and> (\<exists>st2. resolveDefinition daemonCfg envLegend (clockAt hour) st' ''zzqx''
             = Returned
                 (bookPrefix @ ''Zzqx '' @ sourceEmoji ''none'',
                  ''<b><i>Zzqx</i></b>'' @ [CHR 0x0A] @ ''No definition found.'',
                  ''No definition found.'', ''none'')
                 st2 [])"
    by blast
  with daemonStart_Miss [of "clockAt 0" "''zzqx''"] n show ?thesis
    by (intro conjI)
qed

text \<open>
  Claim C6 as it is written has the body equal to the fixed text.  The body
  of the result for \<^verbatim>\<open>zzqx\<close> starts with the header line
  \<^verbatim>\<open><b><i>Zzqx</i></b>\<close>; it is the full text that equals the fixed text.
\<close>

theorem not_found_body_counterexample:
  "snd (snd (snd (result (resolveDefinition daemonCfg envNone (clockAt 0) daemonStart ''zzqx''))))
     = ''none''
   \<and> fst (snd (result (resolveDefinition daemonCfg envNone (clockAt 0) daemonStart ''zzqx'')))
       \<noteq> ''No definition found.''"
proof -
  let ?R = "resolveDefinition daemonCfg envNone (clockAt 0) daemonStart ''zzqx''"
  have R: "result ?R = (fst (result ?R), fst (snd (result ?R)), fst (snd (snd (result ?R))),
                  snd (snd (snd (result ?R))))" by simp
  have "find (yields envNone) (attempts daemonCfg ''zzqx'') = None"
    by (simp add: find_None_iff yields_envNone)
  then have "lookupChain daemonCfg envNone ''zzqx''
      = ((''No definition found.'', ''zzqx'', ''none''), attempts daemonCfg ''zzqx'')"
    by (simp add: lookupChain_find)
  with resolveDefinition_Miss_chain [OF daemonStart_Miss R refl]
  have "snd (snd (snd (result ?R))) = ''none''"
    "\<exists>rest. fst (snd (result ?R)) = ''<b><i>'' @ rest"
    by auto
  then show ?thesis by auto
qed

text \<open>
  When the persisted map is nil, as after loading a cache file that holds
  \<^verbatim>\<open>null\<close>, a call that runs the chain panics at the assignment to the map:
  the memory tier and \<^verbatim>\<open>last.txt\<close> are written, the persisted map and the
  dirty flag are not.
\<close>

lemma daemonStartNull_panics:
  "\<exists>r st' tr. resolveDefinition daemonCfg envNone (clockAt 0) daemonStartNull ''zzqx''
       = Panicked r st' tr
     \<and> disk st' = NilMap \<and> \<not> diskDirty st' \<and> lastFile st' = Some ''No definition found.''"
proof -
  let ?R = "resolveDefinition daemonCfg envNone (clockAt 0) daemonStartNull ''zzqx''"
  have R: "result ?R = (fst (result ?R), fst (snd (result ?R)), fst (snd (snd (result ?R))),
                  snd (snd (snd (result ?R))))" by simp
  have d: "disk daemonStartNull = NilMap"
    by (simp add: daemonStartNull_def loadDiskCache_def)
  have m: "lookupPath (clockAt 0) daemonStartNull ''zzqx'' = Miss"
    by (simp add: lookupPath_def daemonStartNull_def daemonStart_def newLRU_def lruCache_get_def
        lruItems_def loadDiskCache_def)
  have "find (yields envNone) (attempts daemonCfg ''zzqx'') = None"
    by (simp add: find_None_iff yields_envNone)
  then have "lookupChain daemonCfg envNone ''zzqx''
      = ((''No definition found.'', ''zzqx'', ''none''), attempts daemonCfg ''zzqx'')"
    by (simp add: lookupChain_find)
  with resolveDefinition_Miss_chain [OF m R refl]
  have fl: "fst (snd (snd (result ?R))) = ''No definition found.''"
    by (auto simp: trimSpace_placeholder)
  note s = resolveDefinition_Miss_stored [OF m R refl]
  from s(3) fl have "lastFile (stateAfter ?R) = Some ''No definition found.''"
    by (simp add: writeLast_def envNone_def)
  moreover from s(10) [OF d] d have "disk (stateAfter ?R) = NilMap" "\<not> diskDirty (stateAfter ?R)"
    by (simp_all add: daemonStartNull_def daemonStart_def)
  ultimately show ?thesis using s(9) [OF d] by blast
qed
lemma leadingSpace_hd:
  assumes "s \<noteq> []" "hd s \<notin> hd ` set spaceRunes"
  shows "leadingSpace s = 0"
proof (cases "find (\<lambda>e. take (length e) s = e) spaceRunes")
  case None
  then show ?thesis by (simp add: leadingSpace_def)
next
  case (Some e)
  then have e: "e \<in> set spaceRunes" "take (length e) s = e"
    by (auto simp: find_Some_iff)
  then have "e \<noteq> []" by (simp add: spaceRunes_nonempty)
  with e(2) assms(1) have "hd e = hd s"
    by (metis hd_take length_greater_0_conv)
  with e(1) assms(2) show ?thesis by (metis imageI)
qed
















subsection \<open>Full text and clamped body\<close>

lemma lemmaCandidates_cat: "lemmaCandidates ''cat'' = [''cat'']"
  by (simp add: lemma_eval)

lemma attempts_cat:
  "attempts daemonCfg ''cat'' = [(Primary, ''cat''), (Wiktionary, ''cat''), (Offline, ''cat'')]"
  by (simp add: attempts_unfold lemmaCandidates_cat daemonCfg_def)

lemma toLower_cat: "toLower ''cat'' = ''cat''"
  by (simp add: toLower_def toLowerByte_def)




lemma lookupChain_onlineCat:
  "lookupChain daemonCfg envOnlineCat ''cat''
     = ((''A small domesticated carnivorous mammal.'', ''cat'', ''online''), [(Primary, ''cat'')])"
  by (simp add: lookupChain_find attempts_cat yields_def textOf_def envOnlineCat_def envNone_def)



subsection \<open>Freshness of persisted entries\<close>

lemma resolveMiss_trace: "lookups (resolveMiss cfg e clk st word) = snd (lookupChain cfg e word)"
proof -
  obtain out used src0 tr0 where c: "lookupChain cfg e word = ((out, used, src0), tr0)"
    by (metis prod.exhaust)
  show ?thesis by (simp add: resolveMiss_both(2) [OF c] c)
qed

lemma resolveDefinition_Miss_trace:
  "lookupPath clk st word = Miss \<Longrightarrow>
     lookups (resolveDefinition cfg e clk st word) = snd (lookupChain cfg e word)"
  by (simp add: resolveDefinition_Miss resolveMiss_trace)

text \<open>
  Claim C5, as the code has it.  The rule of 12 hours is a rule of the
  persisted tier: it is tested when the memory tier has missed.  Then a
  persisted entry of source \<^verbatim>\<open>offline\<close> that is more than 12 hours old is not
  returned and the provider chain runs; any other persisted entry that is
  no older than 30 days is returned as it is, with no lookup, and set in the
  memory tier; an entry older than 30 days makes the chain run.
\<close>

theorem offline_refresh_on_persisted_tier:
  assumes "snd (lruCache_get (mem st) (toLower word) (nowGet clk)) = None"
    and "mapGet (disk st) (toLower word) = Some de"
  shows "(Source de = ''offline'' \<and> offlineRefreshAfter < since (nowOffline clk) (TS de) \<longrightarrow>
            lookupPath clk st word = Miss
            \<and> lookups (resolveDefinition cfg e clk st word) = snd (lookupChain cfg e word)
            \<and> resolveDefinition cfg e clk st word
                = resolveMiss cfg e clk
                    (st\<lparr>mem := fst (lruCache_get (mem st) (toLower word) (nowGet clk))\<rparr>) word)
         \<and> (\<not> (Source de = ''offline'' \<and> offlineRefreshAfter < since (nowOffline clk) (TS de))
              \<and> since (nowTTL clk) (TS de) \<le> cacheTTL \<longrightarrow>
            lookupPath clk st word = DiskHit
            \<and> resolveDefinition cfg e clk st word
                = Returned (Title de, Body de, Full de, Source de)
                   (st\<lparr>mem := lruCache_set (fst (lruCache_get (mem st) (toLower word) (nowGet clk)))
                               (toLower word) (Title de) (Body de) (Full de) (Source de)
                               (nowSet clk)\<rparr>) []
            \<and> (1 \<le> maxLen (mem st) \<longrightarrow>
                 lruItems (mem (stateAfter (resolveDefinition cfg e clk st word))) (toLower word)
                   = Some \<lparr>key = toLower word, title = Title de, body = Body de, full = Full de,
                           ts = nowSet clk, src = Source de\<rparr>))
         \<and> (cacheTTL < since (nowTTL clk) (TS de) \<longrightarrow>
            lookupPath clk st word = Miss
            \<and> lookups (resolveDefinition cfg e clk st word) = snd (lookupChain cfg e word))"
proof (intro conjI impI)
  assume a: "Source de = ''offline'' \<and> offlineRefreshAfter < since (nowOffline clk) (TS de)"
  with assms show m: "lookupPath clk st word = Miss"
    by (simp add: lookupPath_def)
  then show "lookups (resolveDefinition cfg e clk st word) = snd (lookupChain cfg e word)"
    by (rule resolveDefinition_Miss_trace)
  from m show "resolveDefinition cfg e clk st word
      = resolveMiss cfg e clk
          (st\<lparr>mem := fst (lruCache_get (mem st) (toLower word) (nowGet clk))\<rparr>) word"
    by (rule resolveDefinition_Miss)
next
  assume a: "\<not> (Source de = ''offline'' \<and> offlineRefreshAfter < since (nowOffline clk) (TS de))
    \<and> since (nowTTL clk) (TS de) \<le> cacheTTL"
  with assms show "lookupPath clk st word = DiskHit"
    by (auto simp: lookupPath_def)
  let ?m = "fst (lruCache_get (mem st) (toLower word) (nowGet clk))"
  obtain m where g: "lruCache_get (mem st) (toLower word) (nowGet clk) = (m, None)"
    using assms(1) by (cases "lruCache_get (mem st) (toLower word) (nowGet clk)") auto
  then have m: "?m = m" by simp
  from g assms(2) a show r: "resolveDefinition cfg e clk st word
      = Returned (Title de, Body de, Full de, Source de)
         (st\<lparr>mem := lruCache_set ?m (toLower word) (Title de) (Body de) (Full de) (Source de)
                     (nowSet clk)\<rparr>) []"
    unfolding m by (auto simp: resolveDefinition_def)
  assume "1 \<le> maxLen (mem st)"
  then have "1 \<le> maxLen ?m" by (simp add: lruCache_get_fields)
  from lruItems_set [OF this] r
  show "lruItems (mem (stateAfter (resolveDefinition cfg e clk st word))) (toLower word)
      = Some \<lparr>key = toLower word, title = Title de, body = Body de, full = Full de,
              ts = nowSet clk, src = Source de\<rparr>"
    by simp
next
  assume "cacheTTL < since (nowTTL clk) (TS de)"
  with assms show m: "lookupPath clk st word = Miss"
    by (simp add: lookupPath_def)
  then show "lookups (resolveDefinition cfg e clk st word) = snd (lookupChain cfg e word)"
    by (rule resolveDefinition_Miss_trace)
qed

lemma daemonStartWith_mem_miss:
  "snd (lruCache_get (mem (daemonStartWith de)) k t) = None"
  by (simp add: daemonStartWith_def daemonStart_def newLRU_def lruCache_get_def lruItems_def)

lemma daemonStartWith_disk: "mapGet (disk (daemonStartWith de)) (toLower ''cat'') = Some de"
  by (simp add: daemonStartWith_def toLower_cat loadDiskCache_def)

lemma lookupChain_offlineCat:
  "lookupChain daemonCfg envOfflineCat ''cat''
     = ((''1. A small domesticated animal.'', ''cat'', ''offline''),
        [(Primary, ''cat''), (Wiktionary, ''cat''), (Offline, ''cat'')])"
  by (simp add: lookupChain_find attempts_cat yields_def textOf_def envOfflineCat_def envNone_def)

theorem offline_refresh_on_persisted_tier_witness:
  "snd (lruCache_get (mem (daemonStartWith offlineCatEntry)) (toLower ''cat'')
          (nowGet (clockAt (13 * hour)))) = None
   \<and> mapGet (disk (daemonStartWith offlineCatEntry)) (toLower ''cat'') = Some offlineCatEntry
   \<and> lookupPath (clockAt (13 * hour)) (daemonStartWith offlineCatEntry) ''cat'' = Miss
   \<and> lookups (resolveDefinition daemonCfg envOnlineCat (clockAt (13 * hour))
                 (daemonStartWith offlineCatEntry) ''cat'') = [(Primary, ''cat'')]
   \<and> lookupPath (clockAt (13 * hour)) (daemonStartWith onlineCatEntry) ''cat'' = DiskHit
   \<and> result (resolveDefinition daemonCfg envNone (clockAt (13 * hour))
            (daemonStartWith onlineCatEntry) ''cat'')
       = (''Cat'', ''1. A small domesticated animal.'', ''1. A small domesticated animal.'',
          ''online'')
   \<and> lookups (resolveDefinition daemonCfg envNone (clockAt (13 * hour))
                 (daemonStartWith onlineCatEntry) ''cat'') = []"
proof -
  let ?clk = "clockAt (13 * hour)"
  note T1 = offline_refresh_on_persisted_tier
    [OF daemonStartWith_mem_miss daemonStartWith_disk, of offlineCatEntry ?clk daemonCfg envOnlineCat]
  note T2 = offline_refresh_on_persisted_tier
    [OF daemonStartWith_mem_miss daemonStartWith_disk, of onlineCatEntry ?clk daemonCfg envNone]
  have old: "Source offlineCatEntry = ''offline''
      \<and> offlineRefreshAfter < since (nowOffline ?clk) (TS offlineCatEntry)"
    by (simp add: offlineCatEntry_def clockAt_def time_eval)
  with T1 have a1: "lookupPath ?clk (daemonStartWith offlineCatEntry) ''cat'' = Miss"
    and a2: "lookups (resolveDefinition daemonCfg envOnlineCat ?clk
                         (daemonStartWith offlineCatEntry) ''cat'')
             = snd (lookupChain daemonCfg envOnlineCat ''cat'')"
    by blast+
  have a: "lookupPath ?clk (daemonStartWith offlineCatEntry) ''cat'' = Miss"
    "lookups (resolveDefinition daemonCfg envOnlineCat ?clk (daemonStartWith offlineCatEntry)
                 ''cat'') = [(Primary, ''cat'')]"
    using a1 a2 by (simp_all only: lookupChain_onlineCat snd_conv)
  have fresh: "\<not> (Source onlineCatEntry = ''offline''
        \<and> offlineRefreshAfter < since (nowOffline ?clk) (TS onlineCatEntry))
      \<and> since (nowTTL ?clk) (TS onlineCatEntry) \<le> cacheTTL"
    by (simp add: onlineCatEntry_def offlineCatEntry_def clockAt_def time_eval)
  with T2 have b1: "lookupPath ?clk (daemonStartWith onlineCatEntry) ''cat'' = DiskHit"
    and b2: "resolveDefinition daemonCfg envNone ?clk (daemonStartWith onlineCatEntry) ''cat''
       = Returned
          (Title onlineCatEntry, Body onlineCatEntry, Full onlineCatEntry, Source onlineCatEntry)
          ((daemonStartWith onlineCatEntry)\<lparr>mem :=
             lruCache_set (fst (lruCache_get (mem (daemonStartWith onlineCatEntry))
                                  (toLower ''cat'') (nowGet ?clk)))
               (toLower ''cat'') (Title onlineCatEntry) (Body onlineCatEntry)
               (Full onlineCatEntry) (Source onlineCatEntry) (nowSet ?clk)\<rparr>) []"
    by blast+
  have b: "lookupPath ?clk (daemonStartWith onlineCatEntry) ''cat'' = DiskHit"
    "result (resolveDefinition daemonCfg envNone ?clk (daemonStartWith onlineCatEntry) ''cat'')
       = (''Cat'', ''1. A small domesticated animal.'', ''1. A small domesticated animal.'',
          ''online'')"
    "lookups (resolveDefinition daemonCfg envNone ?clk (daemonStartWith onlineCatEntry) ''cat'')
       = []"
    using b1 by (simp_all add: b2) (simp_all add: onlineCatEntry_def offlineCatEntry_def)
  show ?thesis
    using daemonStartWith_mem_miss [of offlineCatEntry "toLower ''cat''" "nowGet ?clk"]
      daemonStartWith_disk [of offlineCatEntry] a b
    by (intro conjI)
qed

text \<open>
  Claim C5 as it is written covers every cached entry.  An entry of source
  \<^verbatim>\<open>offline\<close> that the daemon resolved itself also sits in its memory tier,
  where only the TTL of 30 days is tested: 13 hours later the call returns
  that entry and makes no lookup, although the primary service would now
  answer.
\<close>

theorem offline_entry_in_memory_counterexample:
  "snd (snd (snd (result (resolveDefinition daemonCfg envOfflineCat (clockAt 0) daemonStart ''cat''))))
     = ''offline''
   \<and> offlineRefreshAfter < since (13 * hour) 0
   \<and> yields envOnlineCat (Primary, ''cat'')
   \<and> result (resolveDefinition daemonCfg envOnlineCat (clockAt (13 * hour))
            (stateAfter (resolveDefinition daemonCfg envOfflineCat (clockAt 0) daemonStart ''cat''))
            ''cat'')
       = result (resolveDefinition daemonCfg envOfflineCat (clockAt 0) daemonStart ''cat'')
   \<and> lookups (resolveDefinition daemonCfg envOnlineCat (clockAt (13 * hour))
            (stateAfter (resolveDefinition daemonCfg envOfflineCat (clockAt 0) daemonStart ''cat''))
            ''cat'') = []"
proof -
  let ?R = "resolveDefinition daemonCfg envOfflineCat (clockAt 0) daemonStart ''cat''"
  have R: "result ?R = (fst (result ?R), fst (snd (result ?R)), fst (snd (snd (result ?R))),
                  snd (snd (snd (result ?R))))" by simp
  from resolveDefinition_Miss_chain [OF daemonStart_Miss R refl] lookupChain_offlineCat
  have src: "snd (snd (snd (result ?R))) = ''offline''" by auto
  have m: "1 \<le> maxLen (mem daemonStart)" by (simp add: example_eval)
  let ?it = "\<lparr>key = toLower ''cat'', title = fst (result ?R), body = fst (snd (result ?R)),
               full = fst (snd (snd (result ?R))), ts = nowSet (clockAt 0),
               src = snd (snd (snd (result ?R)))\<rparr>"
  from resolveDefinition_Miss_stored(5,6) [OF daemonStart_Miss R refl] m
  have it: "lruItems (mem (stateAfter ?R)) (toLower ''cat'') = Some ?it"
    and t: "ttl (mem (stateAfter ?R)) = ttl (mem daemonStart)"
    by simp_all
  have "ttl (mem daemonStart) = cacheTTL" by (simp add: daemonStart_def newLRU_def)
  then have "since (nowGet (clockAt (13 * hour))) (ts ?it) \<le> ttl (mem (stateAfter ?R))"
    unfolding t by (simp add: clockAt_def time_eval)
  from resolveDefinition_fresh_mem [OF it this, of daemonCfg envOnlineCat]
  have again: "result (resolveDefinition daemonCfg envOnlineCat (clockAt (13 * hour)) (stateAfter ?R)
                 ''cat'') = result ?R"
    "lookups (resolveDefinition daemonCfg envOnlineCat (clockAt (13 * hour)) (stateAfter ?R)
                 ''cat'') = []"
    by simp_all
  have "offlineRefreshAfter < since (13 * hour) 0" by (simp add: time_eval)
  moreover have "yields envOnlineCat (Primary, ''cat'')"
    by (simp add: yields_def envOnlineCat_def envNone_def)
  ultimately show ?thesis using src again by (intro conjI)
qed
subsection \<open>What a cache hit leaves untouched\<close>

lemma resolveDefinition_hit_frame:
  assumes "lookupPath clk st word \<noteq> Miss"
  shows "(\<exists>r st'. resolveDefinition cfg e clk st word = Returned r st' [])
         \<and> lookups (resolveDefinition cfg e clk st word) = []
         \<and> disk (stateAfter (resolveDefinition cfg e clk st word)) = disk st
         \<and> diskDirty (stateAfter (resolveDefinition cfg e clk st word)) = diskDirty st
         \<and> lastFile (stateAfter (resolveDefinition cfg e clk st word)) = lastFile st
         \<and> cacheFile (stateAfter (resolveDefinition cfg e clk st word)) = cacheFile st
         \<and> tmpFile (stateAfter (resolveDefinition cfg e clk st word)) = tmpFile st"
proof (cases "lookupPath clk st word")
  case MemHit
  from resolveDefinition_MemHit [OF this, of cfg e] show ?thesis by auto
next
  case DiskHit
  from resolveDefinition_DiskHit [OF this, of cfg e] show ?thesis by auto
next
  case Miss
  with assms show ?thesis by simp
qed

lemma resolveAll_hits_frame:
  "allHits cfg st reqs \<Longrightarrow>
     disk (resolveAll cfg st reqs) = disk st
     \<and> diskDirty (resolveAll cfg st reqs) = diskDirty st
     \<and> lastFile (resolveAll cfg st reqs) = lastFile st"
proof (induction reqs arbitrary: st)
  case Nil
  then show ?case by simp
next
  case (Cons r reqs)
  obtain e clk w where r: "r = (e, clk, w)" by (cases r) auto
  let ?st = "stateAfter (resolveDefinition cfg e clk st w)"
  from Cons.prems r have h: "lookupPath clk st w \<noteq> Miss" "allHits cfg ?st reqs" by simp_all
  note f = resolveDefinition_hit_frame [OF h(1), of cfg e]
  from f obtain r' st' where ret: "resolveDefinition cfg e clk st w = Returned r' st' []"
    by blast
  then have "resolveAll cfg st (r # reqs) = resolveAll cfg ?st reqs"
    by (simp add: r)
  with Cons.IH [OF h(2)] f show ?case by simp
qed

lemma resolveDefinition_files:
  "cacheFile (stateAfter (resolveDefinition cfg e clk st word)) = cacheFile st
   \<and> tmpFile (stateAfter (resolveDefinition cfg e clk st word)) = tmpFile st"
proof (cases "lookupPath clk st word = Miss")
  case False
  then show ?thesis by (simp add: resolveDefinition_hit_frame)
next
  case True
  obtain out used src0 tr0 where c: "lookupChain cfg e word = ((out, used, src0), tr0)"
    by (metis prod.exhaust)
  show ?thesis
    by (simp add: resolveDefinition_Miss [OF True] resolveMiss_both(5,6) [OF c])
qed

text \<open>
  Claim C10.  A call that hits either tier makes no lookup and leaves the
  persisted map, the dirty flag, \<^verbatim>\<open>last.txt\<close> and the two cache files as they
  were; so does any run of such calls.  Hence after a call that ran the
  provider chain and wrote \<^verbatim>\<open>last.txt\<close>, followed by any run of calls that hit,
  \<^verbatim>\<open>last.txt\<close> still holds the full text of the call that ran the chain.
\<close>

theorem cache_hit_writes_nothing:
  "(lookupPath clk st word \<noteq> Miss \<longrightarrow>
      (\<exists>r st'. resolveDefinition cfg e clk st word = Returned r st' [])
      \<and> lookups (resolveDefinition cfg e clk st word) = []
      \<and> disk (stateAfter (resolveDefinition cfg e clk st word)) = disk st
      \<and> diskDirty (stateAfter (resolveDefinition cfg e clk st word)) = diskDirty st
      \<and> lastFile (stateAfter (resolveDefinition cfg e clk st word)) = lastFile st
      \<and> cacheFile (stateAfter (resolveDefinition cfg e clk st word)) = cacheFile st
      \<and> tmpFile (stateAfter (resolveDefinition cfg e clk st word)) = tmpFile st)
   \<and> (allHits cfg st reqs \<longrightarrow>
        disk (resolveAll cfg st reqs) = disk st
        \<and> diskDirty (resolveAll cfg st reqs) = diskDirty st
        \<and> lastFile (resolveAll cfg st reqs) = lastFile st)
   \<and> (lookupPath clk st word = Miss \<and> lastWrite e = WriteOk
        \<and> allHits cfg (stateAfter (resolveDefinition cfg e clk st word)) reqs \<longrightarrow>
        lastFile (resolveAll cfg (stateAfter (resolveDefinition cfg e clk st word)) reqs)
          = Some (fst (snd (snd (result (resolveDefinition cfg e clk st word))))))"
proof (intro conjI impI)
  assume "lookupPath clk st word \<noteq> Miss"
  from resolveDefinition_hit_frame [OF this, of cfg e]
  show "\<exists>r st'. resolveDefinition cfg e clk st word = Returned r st' []"
    "lookups (resolveDefinition cfg e clk st word) = []"
    "disk (stateAfter (resolveDefinition cfg e clk st word)) = disk st"
    "diskDirty (stateAfter (resolveDefinition cfg e clk st word)) = diskDirty st"
    "lastFile (stateAfter (resolveDefinition cfg e clk st word)) = lastFile st"
    "cacheFile (stateAfter (resolveDefinition cfg e clk st word)) = cacheFile st"
    "tmpFile (stateAfter (resolveDefinition cfg e clk st word)) = tmpFile st"
    by blast+
next
  assume "allHits cfg st reqs"
  from resolveAll_hits_frame [OF this]
  show "disk (resolveAll cfg st reqs) = disk st"
    "diskDirty (resolveAll cfg st reqs) = diskDirty st"
    "lastFile (resolveAll cfg st reqs) = lastFile st"
    by simp_all
next
  let ?R = "resolveDefinition cfg e clk st word"
  assume a: "lookupPath clk st word = Miss \<and> lastWrite e = WriteOk \<and> allHits cfg (stateAfter ?R) reqs"
  have R: "result ?R = (fst (result ?R), fst (snd (result ?R)), fst (snd (snd (result ?R))),
                  snd (snd (snd (result ?R))))" by simp
  from a resolveDefinition_Miss_stored(3) [OF _ R refl]
  have "lastFile (stateAfter ?R) = Some (fst (snd (snd (result ?R))))"
    by (simp add: writeLast_def)
  with a resolveAll_hits_frame [of cfg "stateAfter ?R" reqs]
  show "lastFile (resolveAll cfg (stateAfter ?R) reqs) = Some (fst (snd (snd (result ?R))))"
    by simp
qed

lemma lookupChain_legend:
  "lookupChain daemonCfg envLegend ''legends''
     = ((''A story handed down from the past.'', ''legend'', ''online''),
        [(Primary, ''legends''), (Primary, ''legend'')])"
  by (simp add: lookupChain_find attempts_legends yields_def textOf_def envLegend_def envNone_def)

lemma trimSpace_story:
  "trimSpace ''A story handed down from the past.'' = ''A story handed down from the past.''"
proof -
  have "leadingSpace ''A story handed down from the past.'' = 0"
    by (simp add: leadingSpace_hd spaceRunes_def)
  moreover have "trailingSpace ''A story handed down from the past.'' = 0"
    by (simp add: trailingSpace_def spaceRunes_def hasSuffix_def)
  ultimately show ?thesis
    by (simp add: trimSpace_def trimLeft_fix trimRight_fix)
qed

lemma clockAt_readings:
  "nowGet (clockAt t) = t" "nowOffline (clockAt t) = t" "nowTTL (clockAt t) = t"
  "nowSet (clockAt t) = t" "nowDisk (clockAt t) = t"
  by (simp_all add: clockAt_def)

lemma lookupPath_MemHit:
  "lruItems (mem st) (toLower w) = Some it \<Longrightarrow> since (nowGet clk) (ts it) \<le> ttl (mem st) \<Longrightarrow>
     lookupPath clk st w = MemHit"
  by (simp add: lookupPath_def lruCache_get_def)

theorem cache_hit_writes_nothing_witness:
  "lookupPath (clockAt 0) daemonStart ''legends'' = Miss
   \<and> lastWrite envLegend = WriteOk
   \<and> lookupPath (clockAt hour)
        (stateAfter (resolveDefinition daemonCfg envLegend (clockAt 0) daemonStart ''legends''))
        ''Legends'' = MemHit
   \<and> lookups (resolveDefinition daemonCfg envNone (clockAt hour)
        (stateAfter (resolveDefinition daemonCfg envLegend (clockAt 0) daemonStart ''legends''))
        ''Legends'') = []
   \<and> lastFile (resolveAll daemonCfg
        (stateAfter (resolveDefinition daemonCfg envLegend (clockAt 0) daemonStart ''legends''))
        [(envNone, clockAt hour, ''Legends''), (envNone, clockAt (2 * hour), ''legends'')])
       = Some ''A story handed down from the past.''"
proof -
  let ?R1 = "resolveDefinition daemonCfg envLegend (clockAt 0) daemonStart ''legends''"
  let ?st1 = "stateAfter ?R1"
  let ?R2 = "resolveDefinition daemonCfg envNone (clockAt hour) ?st1 ''Legends''"
  let ?st2 = "stateAfter ?R2"
  let ?reqs = "[(envNone, clockAt hour, ''Legends''), (envNone, clockAt (2 * hour), ''legends'')]"
  have R1: "result ?R1 = (fst (result ?R1), fst (snd (result ?R1)), fst (snd (snd (result ?R1))),
                  snd (snd (snd (result ?R1))))" by simp
  have lw: "toLower ''legends'' = ''legends''" "toLower ''Legends'' = ''legends''"
    by code_simp+
  have m0: "1 \<le> maxLen (mem daemonStart)" "ttl (mem daemonStart) = cacheTTL"
    by (simp_all add: example_eval)
  have w: "lastWrite envLegend = WriteOk" by (simp add: envLegend_def envNone_def)
  from resolveDefinition_Miss_chain [OF daemonStart_Miss R1 refl] lookupChain_legend
  have fl1: "fst (snd (snd (result ?R1))) = ''A story handed down from the past.''"
    by (auto simp: trimSpace_story)
  note s1 = resolveDefinition_Miss_stored [OF daemonStart_Miss R1 refl]
  let ?it1 = "\<lparr>key = ''legends'', title = fst (result ?R1), body = fst (snd (result ?R1)),
                full = fst (snd (snd (result ?R1))), ts = 0, src = snd (snd (snd (result ?R1)))\<rparr>"
  from s1(6) m0 have it1: "lruItems (mem ?st1) ''legends'' = Some ?it1"
    by (simp add: lw clockAt_readings)
  from s1(5) m0 have t1: "ttl (mem ?st1) = cacheTTL" by simp
  \<comment> \<open>the second call hits the memory tier\<close>
  have h2: "lookupPath (clockAt hour) ?st1 ''Legends'' = MemHit"
    by (rule lookupPath_MemHit [of _ _ ?it1]) (simp_all add: lw it1 t1 clockAt_readings time_eval)
  \<comment> \<open>and so does the third\<close>
  have "since (nowGet (clockAt hour)) (ts ?it1) \<le> ttl (mem ?st1)"
    by (simp add: t1 clockAt_readings time_eval)
  with it1 have "?R2 = Returned (title ?it1, body ?it1, full ?it1, src ?it1)
      (?st1\<lparr>mem := (mem ?st1)\<lparr>ll := ?it1 # remove1 ?it1 (ll (mem ?st1))\<rparr>\<rparr>) []"
    by (intro resolveDefinition_fresh_mem) (simp_all add: lw)
  then have st2: "?st2 = ?st1\<lparr>mem := (mem ?st1)\<lparr>ll := ?it1 # remove1 ?it1 (ll (mem ?st1))\<rparr>\<rparr>"
    by simp
  have "lruItems (mem ?st2) ''legends'' = Some ?it1"
    unfolding st2 by (simp add: lruItems_def)
  moreover have "ttl (mem ?st2) = cacheTTL"
    unfolding st2 using t1 by simp
  ultimately have h3: "lookupPath (clockAt (2 * hour)) ?st2 ''legends'' = MemHit"
    by (intro lookupPath_MemHit [of _ _ ?it1]) (simp_all add: lw clockAt_readings time_eval)
  from h2 h3 have hits: "allHits daemonCfg ?st1 ?reqs" by simp
  note T = cache_hit_writes_nothing [of "clockAt 0" daemonStart "''legends''" daemonCfg envLegend ?reqs]
  from T daemonStart_Miss w hits
  have "lastFile (resolveAll daemonCfg ?st1 ?reqs) = Some (fst (snd (snd (result ?R1))))"
    by blast
  then have last: "lastFile (resolveAll daemonCfg ?st1 ?reqs)
      = Some ''A story handed down from the past.''"
    by (simp only: fl1)
  note T2 = cache_hit_writes_nothing [of "clockAt hour" ?st1 "''Legends''" daemonCfg envNone "[]"]
  from T2 h2 have tr2: "lookups ?R2 = []" by simp
  show ?thesis
    using daemonStart_Miss [of "clockAt 0" "''legends''"] w h2 tr2 last by (intro conjI)
qed

section \<open>Properties of the flush\<close>

lemma saveDiskCacheAtomic_failed:
  "\<not> saved io \<Longrightarrow>
     cacheFile (saveDiskCacheAtomic io st) = cacheFile st
     \<and> disk (saveDiskCacheAtomic io st) = disk st
     \<and> mem (saveDiskCacheAtomic io st) = mem st
     \<and> lastFile (saveDiskCacheAtomic io st) = lastFile st"
  by (cases "tmpWrite io") (auto simp: saveDiskCacheAtomic_def saved_def)

lemma saveDiskCacheAtomic_saved:
  "saved io \<Longrightarrow>
     saveDiskCacheAtomic io st = st\<lparr>cacheFile := Some (Snapshot (disk st)), tmpFile := None\<rparr>"
  by (simp add: saveDiskCacheAtomic_def saved_def)

lemma flushTick_clean: "\<not> diskDirty st \<Longrightarrow> flushTick io st = st"
  by (simp add: flushTick_def)

lemma resolveDefinition_Miss_disk:
  assumes "lookupPath clk st w = Miss" and "k \<noteq> toLower w"
  shows "mapGet (disk (stateAfter (resolveDefinition cfg e clk st w))) k = mapGet (disk st) k"
proof -
  obtain out used src0 tr0 where c: "lookupChain cfg e w = ((out, used, src0), tr0)"
    by (metis prod.exhaust)
  let ?st = "st\<lparr>mem := fst (lruCache_get (mem st) (toLower w) (nowGet clk))\<rparr>"
  show ?thesis
  proof (cases "disk st")
    case NilMap
    then have "disk ?st = NilMap" by simp
    from resolveMiss_nil [OF c this] NilMap show ?thesis
      by (simp add: resolveDefinition_Miss [OF assms(1)])
  next
    case (MapOf dm)
    then have "disk ?st = MapOf dm" by simp
    from resolveMiss_unfold [OF c this] MapOf assms(2) show ?thesis
      by (simp add: resolveDefinition_Miss [OF assms(1)])
  qed
qed

text \<open>
  Claim C4, as the code has it.  When the write of a flush fails (the
  marshalling, the write of the temporary file or the rename), the snapshot
  file is left as it was and the persisted map keeps its entries.  The tick
  clears the dirty flag all the same, since \<^verbatim>\<open>saveDiskCacheAtomic\<close> reports
  nothing: the following ticks do nothing, whatever a write would do.  The
  unsaved entries reach the file with the first successful flush after a
  later resolution has set the flag again, which writes the whole map (a
  resolution sets the flag when the persisted map is not nil).
\<close>

theorem failed_flush_keeps_snapshot:
  assumes "diskDirty st" and "\<not> saved io"
  shows "cacheFile (flushTick io st) = cacheFile st
         \<and> disk (flushTick io st) = disk st
         \<and> \<not> diskDirty (flushTick io st)
         \<and> (\<forall>io'. flushTick io' (flushTick io st) = flushTick io st)
         \<and> (\<forall>cfg e clk w io'.
               lookupPath clk (flushTick io st) w = Miss \<and> saved io' \<and> disk st \<noteq> NilMap \<longrightarrow>
               diskDirty (stateAfter (resolveDefinition cfg e clk (flushTick io st) w))
               \<and> cacheFile (flushTick io' (stateAfter (resolveDefinition cfg e clk (flushTick io st) w)))
                   = Some (Snapshot (disk (stateAfter (resolveDefinition cfg e clk (flushTick io st) w))))
               \<and> (\<forall>k. k \<noteq> toLower w \<longrightarrow>
                    mapGet (disk (stateAfter (resolveDefinition cfg e clk (flushTick io st) w))) k
                      = mapGet (disk st) k))"
proof -
  let ?st = "flushTick io st"
  from assms have f: "?st = (saveDiskCacheAtomic io st)\<lparr>diskDirty := False\<rparr>"
    by (simp add: flushTick_def)
  with saveDiskCacheAtomic_failed [OF assms(2), of st]
  have a: "cacheFile ?st = cacheFile st" "disk ?st = disk st" "\<not> diskDirty ?st"
    by simp_all
  then have b: "\<forall>io'. flushTick io' ?st = ?st"
    by (simp add: flushTick_clean)
  have c: "diskDirty (stateAfter (resolveDefinition cfg e clk ?st w))
      \<and> cacheFile (flushTick io' (stateAfter (resolveDefinition cfg e clk ?st w)))
          = Some (Snapshot (disk (stateAfter (resolveDefinition cfg e clk ?st w))))
      \<and> (\<forall>k. k \<noteq> toLower w \<longrightarrow>
            mapGet (disk (stateAfter (resolveDefinition cfg e clk ?st w))) k = mapGet (disk st) k)"
    if h: "lookupPath clk ?st w = Miss \<and> saved io' \<and> disk st \<noteq> NilMap" for cfg e clk w io'
  proof -
    let ?R = "resolveDefinition cfg e clk ?st w"
    have R: "result ?R = (fst (result ?R), fst (snd (result ?R)), fst (snd (snd (result ?R))),
                    snd (snd (snd (result ?R))))" by simp
    from h a(2) have n: "disk ?st \<noteq> NilMap" by simp
    from h resolveDefinition_Miss_stored(2) [OF _ R refl n] have d: "diskDirty (stateAfter ?R)"
      by simp
    with h have "cacheFile (flushTick io' (stateAfter ?R)) = Some (Snapshot (disk (stateAfter ?R)))"
      by (simp add: flushTick_def saveDiskCacheAtomic_saved)
    moreover from h a(2)
    have "\<forall>k. k \<noteq> toLower w \<longrightarrow> mapGet (disk (stateAfter ?R)) k = mapGet (disk st) k"
      by (simp add: resolveDefinition_Miss_disk)
    ultimately show ?thesis using d by simp
  qed
  from a b c show ?thesis by blast
qed

lemma catResolved_dirty:
  "diskDirty (stateAfter (resolveDefinition daemonCfg envOnlineCat (clockAt 0) daemonStart ''cat''))"
  "cacheFile (stateAfter (resolveDefinition daemonCfg envOnlineCat (clockAt 0) daemonStart ''cat''))
     = None"
  "mapGet (disk (stateAfter (resolveDefinition daemonCfg envOnlineCat (clockAt 0) daemonStart ''cat'')))
     ''cat'' \<noteq> None"
proof -
  let ?R = "resolveDefinition daemonCfg envOnlineCat (clockAt 0) daemonStart ''cat''"
  have R: "result ?R = (fst (result ?R), fst (snd (result ?R)), fst (snd (snd (result ?R))),
                  snd (snd (snd (result ?R))))" by simp
  have n: "disk daemonStart \<noteq> NilMap" by (simp add: daemonStart_disk)
  from resolveDefinition_Miss_stored(2) [OF daemonStart_Miss R refl n]
  show "diskDirty (stateAfter ?R)" .
  from resolveDefinition_Miss_stored(1) [OF daemonStart_Miss R refl daemonStart_disk]
  show "mapGet (disk (stateAfter ?R)) ''cat'' \<noteq> None"
    by (simp add: toLower_cat)
  show "cacheFile (stateAfter ?R) = None"
    by (simp add: resolveDefinition_files) (simp add: daemonStart_def)
qed

lemma ioOpenFails_not_saved: "\<not> saved ioOpenFails" and ioOk_saved: "saved ioOk"
  by (simp_all add: saved_def ioOpenFails_def ioOk_def)

lemma lookupPath_fresh_key:
  "lruItems (mem st) (toLower w) = None \<Longrightarrow> mapGet (disk st) (toLower w) = None \<Longrightarrow>
     lookupPath clk st w = Miss"
  by (simp add: lookupPath_def lruCache_get_def)

lemma lruItems_get_other:
  assumes "lruItems c k' = None"
  shows "lruItems (fst (lruCache_get c k now)) k' = None"
proof -
  from assms have n: "\<forall>it \<in> set (ll c). key it \<noteq> k'"
    by (simp add: lruItems_def find_None_iff)
  have "set (ll (fst (lruCache_get c k now))) \<subseteq> set (ll c)"
    using set_remove1_subset [of _ "ll c"]
    by (auto simp: lruCache_get_def dest: lruItems_mem split: option.splits)
  with n show ?thesis
    by (auto simp: lruItems_def find_None_iff)
qed

lemma lruItems_set_other:
  assumes "k' \<noteq> k" "lruItems c k' = None"
  shows "lruItems (lruCache_set c k t b f s now) k' = None"
proof -
  from assms(2) have n: "\<forall>it \<in> set (ll c). key it \<noteq> k'"
    by (simp add: lruItems_def find_None_iff)
  have "\<forall>it \<in> set (ll (lruCache_set c k t b f s now)). key it \<noteq> k'"
  proof (cases "lruItems c k")
    case None
    then have "ll (lruCache_set c k t b f s now)
        = take (nat (maxLen c)) (\<lparr>key = k, title = t, body = b, full = f, ts = now, src = s\<rparr> # ll c)"
      by (simp add: lruCache_set_def evict_take)
    with n assms(1) show ?thesis by (auto dest!: in_set_takeD)
  next
    case (Some it)
    then have "key it = k" by (rule lruItems_Some_key)
    with Some n assms(1) show ?thesis
      by (auto simp: lruCache_set_def dest: notin_set_remove1)
  qed
  then show ?thesis by (simp add: lruItems_def find_None_iff)
qed

lemma catResolved_state:
  "lruItems (mem (stateAfter (resolveDefinition daemonCfg envOnlineCat (clockAt 0) daemonStart ''cat'')))
     ''dog'' = None"
  "mapGet (disk (stateAfter (resolveDefinition daemonCfg envOnlineCat (clockAt 0) daemonStart ''cat'')))
     ''dog'' = None"
  "disk (stateAfter (resolveDefinition daemonCfg envOnlineCat (clockAt 0) daemonStart ''cat''))
     \<noteq> NilMap"
proof -
  let ?R = "resolveDefinition daemonCfg envOnlineCat (clockAt 0) daemonStart ''cat''"
  let ?m = "fst (lruCache_get (mem daemonStart) (toLower ''cat'') (nowGet (clockAt 0)))"
  have R: "result ?R = (fst (result ?R), fst (snd (result ?R)), fst (snd (snd (result ?R))),
                  snd (snd (snd (result ?R))))" by simp
  obtain out used src0 tr0 where c: "lookupChain daemonCfg envOnlineCat ''cat'' = ((out, used, src0), tr0)"
    by (metis prod.exhaust)
  have "lruItems (mem daemonStart) ''dog'' = None"
    by (simp add: daemonStart_def newLRU_def lruItems_def)
  then show "lruItems (mem (stateAfter ?R)) ''dog'' = None"
    by (simp add: resolveDefinition_Miss [OF daemonStart_Miss] resolveMiss_both(3) [OF c]
        lruItems_set_other lruItems_get_other toLower_cat)
  from resolveDefinition_Miss_stored(1) [OF daemonStart_Miss R refl daemonStart_disk]
  show "mapGet (disk (stateAfter ?R)) ''dog'' = None" "disk (stateAfter ?R) \<noteq> NilMap"
    by (simp_all add: toLower_cat)
qed

lemma toLower_dog: "toLower ''dog'' = ''dog''"
  by (simp add: toLower_def toLowerByte_def)

text \<open>
  The daemon has resolved \<^verbatim>\<open>cat\<close> and the flush fails to open its temporary
  file: no snapshot file appears, the persisted map is as it was and the
  next tick, whose write would succeed, changes nothing.  After a
  resolution of \<^verbatim>\<open>dog\<close> the next successful flush writes the map, in which the
  entry of \<^verbatim>\<open>cat\<close> still is.
\<close>

theorem failed_flush_keeps_snapshot_witness:
  "diskDirty (stateAfter (resolveDefinition daemonCfg envOnlineCat (clockAt 0) daemonStart ''cat''))
   \<and> \<not> saved ioOpenFails
   \<and> cacheFile (flushTick ioOpenFails
        (stateAfter (resolveDefinition daemonCfg envOnlineCat (clockAt 0) daemonStart ''cat'')))
       = None
   \<and> disk (flushTick ioOpenFails
        (stateAfter (resolveDefinition daemonCfg envOnlineCat (clockAt 0) daemonStart ''cat'')))
       = disk (stateAfter (resolveDefinition daemonCfg envOnlineCat (clockAt 0) daemonStart ''cat''))
   \<and> flushTick ioOk (flushTick ioOpenFails
        (stateAfter (resolveDefinition daemonCfg envOnlineCat (clockAt 0) daemonStart ''cat'')))
       = flushTick ioOpenFails
           (stateAfter (resolveDefinition daemonCfg envOnlineCat (clockAt 0) daemonStart ''cat''))
   \<and> lookupPath (clockAt hour)
        (flushTick ioOpenFails
           (stateAfter (resolveDefinition daemonCfg envOnlineCat (clockAt 0) daemonStart ''cat'')))
        ''dog'' = Miss
   \<and> saved ioOk
   \<and> disk (stateAfter (resolveDefinition daemonCfg envOnlineCat (clockAt 0) daemonStart ''cat''))
       \<noteq> NilMap
   \<and> cacheFile (flushTick ioOk
        (stateAfter (resolveDefinition daemonCfg envNone (clockAt hour)
           (flushTick ioOpenFails
              (stateAfter (resolveDefinition daemonCfg envOnlineCat (clockAt 0) daemonStart ''cat'')))
           ''dog'')))
       = Some (Snapshot (disk
           (stateAfter (resolveDefinition daemonCfg envNone (clockAt hour)
              (flushTick ioOpenFails
                 (stateAfter (resolveDefinition daemonCfg envOnlineCat (clockAt 0) daemonStart ''cat'')))
              ''dog''))))
   \<and> mapGet (disk
        (stateAfter (resolveDefinition daemonCfg envNone (clockAt hour)
           (flushTick ioOpenFails
              (stateAfter (resolveDefinition daemonCfg envOnlineCat (clockAt 0) daemonStart ''cat'')))
           ''dog''))) ''cat''
       = mapGet (disk (stateAfter (resolveDefinition daemonCfg envOnlineCat (clockAt 0) daemonStart
                                     ''cat''))) ''cat''"
proof -
  let ?st = "stateAfter (resolveDefinition daemonCfg envOnlineCat (clockAt 0) daemonStart ''cat'')"
  let ?D = "resolveDefinition daemonCfg envNone (clockAt hour) (flushTick ioOpenFails ?st) ''dog''"
  note T = failed_flush_keeps_snapshot [OF catResolved_dirty(1) ioOpenFails_not_saved]
  from T have a: "cacheFile (flushTick ioOpenFails ?st) = cacheFile ?st"
    "disk (flushTick ioOpenFails ?st) = disk ?st"
    "flushTick ioOk (flushTick ioOpenFails ?st) = flushTick ioOpenFails ?st"
    by blast+
  have "mem (flushTick ioOpenFails ?st) = mem ?st"
    using catResolved_dirty(1) saveDiskCacheAtomic_failed [OF ioOpenFails_not_saved, of ?st]
    by (simp add: flushTick_def)
  with a(2) catResolved_state(1,2)
  have miss: "lookupPath (clockAt hour) (flushTick ioOpenFails ?st) ''dog'' = Miss"
    by (intro lookupPath_fresh_key) (simp_all add: toLower_dog)
  note L = T [THEN conjunct2, THEN conjunct2, THEN conjunct2, THEN conjunct2,
      THEN spec [where x = daemonCfg], THEN spec [where x = envNone],
      THEN spec [where x = "clockAt hour"], THEN spec [where x = "''dog''"],
      THEN spec [where x = ioOk], THEN mp]
  from miss ioOk_saved catResolved_state(3)
  have "lookupPath (clockAt hour) (flushTick ioOpenFails ?st) ''dog'' = Miss \<and> saved ioOk
      \<and> disk ?st \<noteq> NilMap"
    by (intro conjI)
  from L [OF this]
  have "cacheFile (flushTick ioOk (stateAfter ?D)) = Some (Snapshot (disk (stateAfter ?D)))
      \<and> (\<forall>k. k \<noteq> toLower ''dog'' \<longrightarrow> mapGet (disk (stateAfter ?D)) k = mapGet (disk ?st) k)"
    by (elim conjE) (intro conjI)
  then have b: "cacheFile (flushTick ioOk (stateAfter ?D)) = Some (Snapshot (disk (stateAfter ?D)))"
    "mapGet (disk (stateAfter ?D)) ''cat'' = mapGet (disk ?st) ''cat''"
    by (simp_all add: toLower_dog)
  from a(1) catResolved_dirty(2) have "cacheFile (flushTick ioOpenFails ?st) = None" by simp
  with catResolved_dirty(1) ioOpenFails_not_saved a(2,3) miss ioOk_saved catResolved_state(3) b
  show ?thesis by (intro conjI)
qed

text \<open>
  Claim C4 as it is written keeps the dirty flag set after a failed write,
  so that the next tick tries again.  After the daemon has resolved \<^verbatim>\<open>cat\<close>
  and the flush has failed to open its temporary file, the flag is cleared,
  and the next tick, whose write would succeed, writes nothing: the
  snapshot file is still absent while the persisted map holds \<^verbatim>\<open>cat\<close>.
\<close>

theorem failed_flush_counterexample:
  "diskDirty (stateAfter (resolveDefinition daemonCfg envOnlineCat (clockAt 0) daemonStart ''cat''))
   \<and> saved ioOk
   \<and> diskDirty (flushTick ioOpenFails
        (stateAfter (resolveDefinition daemonCfg envOnlineCat (clockAt 0) daemonStart ''cat'')))
       = False
   \<and> cacheFile (flushTick ioOk (flushTick ioOpenFails
        (stateAfter (resolveDefinition daemonCfg envOnlineCat (clockAt 0) daemonStart ''cat''))))
       = None
   \<and> mapGet (disk (flushTick ioOk (flushTick ioOpenFails
        (stateAfter (resolveDefinition daemonCfg envOnlineCat (clockAt 0) daemonStart ''cat'')))))
        ''cat'' \<noteq> None"
proof -
  let ?st = "stateAfter (resolveDefinition daemonCfg envOnlineCat (clockAt 0) daemonStart ''cat'')"
  have f: "flushTick ioOpenFails ?st = ?st\<lparr>diskDirty := False\<rparr>"
    using catResolved_dirty(1)
    by (simp add: flushTick_def saveDiskCacheAtomic_def ioOpenFails_def)
  have g: "flushTick ioOk (?st\<lparr>diskDirty := False\<rparr>) = ?st\<lparr>diskDirty := False\<rparr>"
    by (simp add: flushTick_def)
  show ?thesis
    unfolding f g using catResolved_dirty ioOk_saved by simp
qed

end
